theory Spec2Isabelle
  imports Main "HOL-Library.Word"
begin

section \<open>The display work queue of \<^verbatim>\<open>common/display/DisplayQueue.cpp\<close>\<close>

text \<open>
  The queue sits between a producer of frames and events and a display backend.
  The embedding follows the C++ source function by function.

  \<^item> The intrusive circular ring \<^verbatim>\<open>mpWorkQueue\<close> is the list of its items read from the
    head along \<^verbatim>\<open>mpNext\<close>: the head is the first element, \<^verbatim>\<open>mpWorkQueue->getLast()\<close> the
    last one, \<^verbatim>\<open>WorkItem::queue\<close> appends and \<^verbatim>\<open>WorkItem::dequeue\<close> removes one node.
    A pool frame is referred to by its index into \<^verbatim>\<open>maFrames\<close>. An event is held by value,
    with its links: two events that agree in id and effective frame are two items.
  \<^item> \<^verbatim>\<open>HWCASSERT\<close> and \<^verbatim>\<open>FrameId::validateFutureFrame\<close> abort the operation: a
    function that asserts returns \<open>error + 'a\<close>, with \<open>Inl AssertFailed\<close> for a failed
    assertion. \<^verbatim>\<open>doValidateQueue\<close> is the one of \<^verbatim>\<open>INTEL_HWC_INTERNAL_BUILD\<close>. An
    assertion that a pointer is not \<^verbatim>\<open>NULL\<close> is, for a frame, that its index lies in the
    pool.
  \<^item> The queue lock is held throughout an operation, except in \<^verbatim>\<open>consumeWork\<close>, which
    releases it around the calls to the backend and around \<^verbatim>\<open>waitRendering\<close>: it is
    modelled as the sequence of its locked sections, so that the operations of other
    threads can be run between them.
  \<^item> Code under \<^verbatim>\<open>#ifdef uncomment\<close> is not compiled and is absent here as well.
  \<^item> Condition-variable notifications, worker signals, calls to the backend and the
    \<^verbatim>\<open>delete\<close> of an event are appended to the field \<open>mEffects\<close>.
  \<^item> The 32-bit counters and indices are \<open>32 word\<close>; layer counts, bounded by the
    allocation they index, are \<open>nat\<close>.
\<close>

subsection \<open>Errors\<close>

datatype error = AssertFailed

definition bindE :: "error + 'a \<Rightarrow> ('a \<Rightarrow> error + 'b) \<Rightarrow> error + 'b" where
  "bindE m f = (case m of Inl e \<Rightarrow> Inl e | Inr x \<Rightarrow> f x)"

definition HWCASSERT :: "bool \<Rightarrow> error + unit" where
  "HWCASSERT b = (if b then Inr () else Inl AssertFailed)"

text \<open>Return codes: \<^verbatim>\<open>OK\<close> is 0 and \<^verbatim>\<open>ENOSYS\<close> is 38 (\<^verbatim>\<open>errno.h\<close>).\<close>

definition OK :: int where
  "OK = 0"

definition ENOSYS :: int where
  "ENOSYS = 38"

subsection \<open>FrameId\<close>

record FrameId =
  mTimelineIndex :: "32 word"
  mHwcIndex :: "32 word"

definition FrameId_new :: FrameId where
  "FrameId_new = \<lparr>mTimelineIndex = 0, mHwcIndex = 0\<rparr>"

text \<open>
  Modelled from the spec: \<^verbatim>\<open>FrameId\<close> and its \<^verbatim>\<open>validateFutureFrame\<close> are declared in
  \<^verbatim>\<open>DisplayQueue.h\<close>, which is not among the sources. The spec orders frame ids by
  signed subtraction modulo \<open>2^32\<close>, and \<^verbatim>\<open>doAdvanceIssuedFrame\<close> expects the
  "hwc index and timeline index to NOT move backwards": \<open>futureFrameOk a b\<close> holds
  when \<open>b\<close> is at or after \<open>a\<close> in both indices.
\<close>

definition futureFrameOk :: "FrameId \<Rightarrow> FrameId \<Rightarrow> bool" where
  "futureFrameOk a b \<longleftrightarrow>
     0 \<le> sint (mHwcIndex b - mHwcIndex a) \<and> 0 \<le> sint (mTimelineIndex b - mTimelineIndex a)"

definition validateFutureFrame :: "FrameId \<Rightarrow> FrameId \<Rightarrow> error + unit" where
  "validateFutureFrame a futureFrame = HWCASSERT (futureFrameOk a futureFrame)"

subsection \<open>Layers and frame layers\<close>

text \<open>
  Modelled from the spec: \<^verbatim>\<open>Layer\<close> belongs to the layer stack, outside the sources.
  The record holds what \<^verbatim>\<open>FrameLayer\<close> reads from it: whether it is disabled, what
  \<^verbatim>\<open>waitRendering(0)\<close> answers, its buffer handle, its acquire fence and whether its
  release fence is a native timeline reference.
\<close>

record Layer =
  lDisabled :: bool
  lRenderingDone :: bool
  lHandle :: "nat option"
  lAcquireFence :: int
  lReleaseFence :: "int option"
  lReleaseFenceNative :: bool

definition Layer_new :: Layer where
  "Layer_new = \<lparr>lDisabled = False, lRenderingDone = False, lHandle = None,
     lAcquireFence = -1, lReleaseFence = None, lReleaseFenceNative = False\<rparr>"

record FrameLayer =
  mLayer :: Layer
  mAcquireFence :: int
  mpAcquiredBuffer :: "nat option"
  mbSet :: bool

definition FrameLayer_new :: FrameLayer where
  "FrameLayer_new = \<lparr>mLayer = Layer_new, mAcquireFence = -1, mpAcquiredBuffer = None, mbSet = False\<rparr>"

definition FrameLayer_set :: "FrameLayer \<Rightarrow> Layer \<Rightarrow> error + FrameLayer" where
  "FrameLayer_set fl layer =
     bindE (HWCASSERT (\<not> mbSet fl)) (\<lambda>_.
     bindE (HWCASSERT (mpAcquiredBuffer fl = None)) (\<lambda>_.
     bindE (HWCASSERT (mAcquireFence fl < 0)) (\<lambda>_.
       let fence = lAcquireFence layer;
           snap = layer\<lparr>lAcquireFence := fence\<rparr>;
           snap = (if lReleaseFenceNative snap then snap\<lparr>lReleaseFence := None\<rparr> else snap)
       in Inr (fl\<lparr>mLayer := snap, mAcquireFence := fence,
                  mpAcquiredBuffer := lHandle snap, mbSet := True\<rparr>))))"

definition FrameLayer_reset :: "bool \<Rightarrow> FrameLayer \<Rightarrow> FrameLayer" where
  "FrameLayer_reset bCancel fl =
     (let fl = (if 0 \<le> mAcquireFence fl then fl\<lparr>mAcquireFence := -1\<rparr> else fl);
          fl = (if bCancel then fl\<lparr>mLayer := (mLayer fl)\<lparr>lReleaseFence := None\<rparr>\<rparr> else fl)
      in fl\<lparr>mpAcquiredBuffer := None, mbSet := False\<rparr>)"

definition FrameLayer_isRenderingComplete :: "FrameLayer \<Rightarrow> bool" where
  "FrameLayer_isRenderingComplete fl =
     (if lDisabled (mLayer fl) then True else lRenderingDone (mLayer fl))"

subsection \<open>Frames\<close>

datatype EFrameType = eFT_CUSTOM | eFT_DISPLAY_QUEUE

definition cMinimumLayerAllocCount :: nat where
  "cMinimumLayerAllocCount = 8"

text \<open>
  \<open>mbQueued\<close> stands for \<^verbatim>\<open>mpPrev && mpNext\<close>, which \<^verbatim>\<open>WorkItem::queue\<close> sets and
  \<^verbatim>\<open>WorkItem::dequeue\<close> clears. \<open>maLayers\<close> is the allocated array, empty for \<^verbatim>\<open>NULL\<close>.
\<close>

record Frame =
  mbQueued :: bool
  mEffectiveFrame :: FrameId
  mType :: EFrameType
  mLayerAllocCount :: nat
  mLayerCount :: nat
  maLayers :: "FrameLayer list"
  mZOrder :: "32 word"
  mFrameId :: FrameId
  mConfig :: nat
  mbLockedForDisplay :: bool
  mbValid :: bool

definition Frame_new :: Frame where
  "Frame_new = \<lparr>mbQueued = False, mEffectiveFrame = FrameId_new, mType = eFT_CUSTOM,
     mLayerAllocCount = 0, mLayerCount = 0, maLayers = [], mZOrder = 0,
     mFrameId = FrameId_new, mConfig = 0, mbLockedForDisplay = False, mbValid = False\<rparr>"

definition Frame_setType :: "EFrameType \<Rightarrow> Frame \<Rightarrow> error + Frame" where
  "Frame_setType t f = bindE (HWCASSERT (\<not> mbLockedForDisplay f)) (\<lambda>_. Inr (f\<lparr>mType := t\<rparr>))"

text \<open>The loop of \<^verbatim>\<open>Frame::set\<close> over the stack: layer \<open>ly\<close> of the array takes layer \<open>ly\<close> of the stack.\<close>

fun setLayers :: "FrameLayer list \<Rightarrow> Layer list \<Rightarrow> error + FrameLayer list" where
  "setLayers fls [] = Inr fls"
| "setLayers [] (l # ls) = Inl AssertFailed"
| "setLayers (fl # fls) (l # ls) =
     bindE (FrameLayer_set fl l) (\<lambda>fl'.
     bindE (setLayers fls ls) (\<lambda>fls'. Inr (fl' # fls')))"

text \<open>
  \<open>allocOk\<close> is the outcome of \<^verbatim>\<open>new FrameLayer[mLayerAllocCount]\<close>, consulted only when
  the array is reallocated: \<open>False\<close> is the \<^verbatim>\<open>NULL\<close> the source tests for.
\<close>

definition Frame_set :: "Layer list \<Rightarrow> 32 word \<Rightarrow> FrameId \<Rightarrow> nat \<Rightarrow> bool \<Rightarrow> Frame \<Rightarrow> error + (bool \<times> Frame)" where
  "Frame_set stack zorder id' config allocOk f =
     bindE (HWCASSERT (\<not> mbQueued f)) (\<lambda>_.
     bindE (HWCASSERT (\<not> mbLockedForDisplay f)) (\<lambda>_.
       let f = f\<lparr>mZOrder := zorder, mFrameId := id', mbValid := True\<rparr>;
           stackSize = length stack;
           bReAllocLayers = (mLayerAllocCount f < stackSize)
       in if bReAllocLayers \<and> \<not> allocOk
          then Inr (False, f\<lparr>maLayers := [], mLayerAllocCount := 0, mLayerCount := 0\<rparr>)
          else
            let f = (if bReAllocLayers
                     then (let n = (if stackSize > cMinimumLayerAllocCount
                                    then stackSize else cMinimumLayerAllocCount)
                           in f\<lparr>mLayerAllocCount := n, maLayers := replicate n FrameLayer_new\<rparr>)
                     else f)
            in if mLayerAllocCount f < stackSize then Inr (False, f)
               else
                 let f = f\<lparr>mLayerCount := stackSize\<rparr>
                 in bindE (setLayers (maLayers f) stack) (\<lambda>ls.
                      Inr (True, f\<lparr>maLayers := ls, mConfig := config\<rparr>))))"

definition Frame_getLayerCount :: "Frame \<Rightarrow> nat" where
  "Frame_getLayerCount f = mLayerCount f"

text \<open>
  \<^verbatim>\<open>editLayer\<close> returns \<^verbatim>\<open>&maLayers[ly]\<close> or \<^verbatim>\<open>NULL\<close>: the pointer is the index it
  addresses, \<open>None\<close> is \<^verbatim>\<open>NULL\<close>.
\<close>

definition Frame_editLayer :: "Frame \<Rightarrow> 32 word \<Rightarrow> nat option" where
  "Frame_editLayer f ly =
     (if mLayerCount f \<noteq> 0 \<and> unat ly < mLayerCount f then Some (unat ly) else None)"

definition Frame_getLayer :: "Frame \<Rightarrow> 32 word \<Rightarrow> nat option" where
  "Frame_getLayer f ly = Frame_editLayer f ly"

definition Frame_isRenderingComplete :: "Frame \<Rightarrow> bool" where
  "Frame_isRenderingComplete f =
     list_all FrameLayer_isRenderingComplete (take (mLayerCount f) (maLayers f))"

definition Frame_reset :: "bool \<Rightarrow> Frame \<Rightarrow> Frame" where
  "Frame_reset bCancel f =
     f\<lparr>mbLockedForDisplay := False,
       maLayers := map (FrameLayer_reset bCancel) (take (mLayerCount f) (maLayers f))
                   @ drop (mLayerCount f) (maLayers f)\<rparr>"

definition Frame_invalidate :: "Frame \<Rightarrow> Frame" where
  "Frame_invalidate f = f\<lparr>mbValid := False\<rparr>"

subsection \<open>Work items and the state of the queue\<close>

text \<open>
  \<open>evQueued\<close> stands for \<^verbatim>\<open>mpPrev && mpNext\<close> of the event object, as \<open>mbQueued\<close> does for a
  frame: the constructor leaves it false, \<^verbatim>\<open>WorkItem::queue\<close> sets it and
  \<^verbatim>\<open>WorkItem::dequeue\<close> clears it.
\<close>

record Event =
  evId :: "32 word"
  evEffectiveFrame :: FrameId
  evQueued :: bool

definition Event_new :: "32 word \<Rightarrow> Event" where
  "Event_new i = \<lparr>evId = i, evEffectiveFrame = FrameId_new, evQueued = False\<rparr>"

text \<open>A work item of the ring: a pool frame, by its index into \<open>maFrames\<close>, or an event.\<close>

datatype WorkItem = WORK_ITEM_FRAME nat | WORK_ITEM_EVENT Event

datatype effect =
    NotifyWorkConsumed
  | NotifyFrameReleased
  | SignalWork
  | StartWorker
  | BackendConsumeEvent Event
  | BackendConsumeFrame nat
  | SyncFlip
  | DeleteEvent Event

record Worker =
  mSignalled :: int

text \<open>
  Where the worker stands inside \<^verbatim>\<open>consumeWork\<close>. The source releases \<^verbatim>\<open>mLockQueue\<close>
  around \<^verbatim>\<open>waitRendering\<close> and around the backend's \<^verbatim>\<open>consumeWork\<close>; other threads run
  their operations in between. Each constructor but the first names such a window and
  carries the local variables that are live across it.
\<close>

datatype ConsumePhase =
    PhaseIdle
  | PhaseEventIssued
  | PhaseWaitRendering nat
  | PhaseFlipIssued FrameId

record DisplayQueue =
  mBehaviourFlags :: "32 word"
  mpWorkQueue :: "WorkItem list"
  maFrames :: "Frame list"
  mFramePoolLimit :: "32 word"
  mQueuedWork :: "32 word"
  mQueuedFrames :: "32 word"
  mFramesLockedForDisplay :: "32 word"
  mFramePoolUsed :: "32 word"
  mFramePoolPeak :: "32 word"
  mConsumedWork :: "32 word"
  mConsumedFramesSinceInit :: "32 word"
  mLastQueuedFrame :: FrameId
  mLastIssuedFrame :: FrameId
  mLastDroppedFrame :: FrameId
  mbConsumerBlocked :: bool
  mpWorker :: "Worker option"
  mName :: string
  mPhase :: ConsumePhase
  mEffects :: "effect list"

text \<open>
  Modelled from the spec: the pool size \<^verbatim>\<open>mFramePoolCount\<close>, the soft limit
  \<^verbatim>\<open>mFramePoolLimit\<close> and the flag bit \<^verbatim>\<open>eBF_SYNC_BEFORE_FLIP\<close> are constants of
  \<^verbatim>\<open>DisplayQueue.h\<close>. The pool size is the length of \<open>maFrames\<close> and, with the limit, a
  parameter of the constructor; the flag is taken to be bit 0.
\<close>

definition eBF_SYNC_BEFORE_FLIP :: "32 word" where
  "eBF_SYNC_BEFORE_FLIP = 1"

definition mFramePoolCount :: "DisplayQueue \<Rightarrow> nat" where
  "mFramePoolCount s = length (maFrames s)"

definition DisplayQueue_new :: "nat \<Rightarrow> 32 word \<Rightarrow> 32 word \<Rightarrow> DisplayQueue" where
  "DisplayQueue_new poolCount poolLimit behaviourFlags =
     \<lparr>mBehaviourFlags = behaviourFlags, mpWorkQueue = [],
      maFrames = replicate poolCount (Frame_new\<lparr>mType := eFT_DISPLAY_QUEUE\<rparr>),
      mFramePoolLimit = poolLimit,
      mQueuedWork = 0, mQueuedFrames = 0, mFramesLockedForDisplay = 0, mFramePoolUsed = 0,
      mFramePoolPeak = 0, mConsumedWork = 0, mConsumedFramesSinceInit = 0,
      mLastQueuedFrame = FrameId_new, mLastIssuedFrame = FrameId_new,
      mLastDroppedFrame = FrameId_new, mbConsumerBlocked = False, mpWorker = None,
      mName = [], mPhase = PhaseIdle, mEffects = []\<rparr>"

definition effect :: "effect \<Rightarrow> DisplayQueue \<Rightarrow> DisplayQueue" where
  "effect e s = s\<lparr>mEffects := mEffects s @ [e]\<rparr>"

definition updFrame :: "nat \<Rightarrow> (Frame \<Rightarrow> Frame) \<Rightarrow> DisplayQueue \<Rightarrow> DisplayQueue" where
  "updFrame f g s = s\<lparr>maFrames := (maFrames s)[f := g (maFrames s ! f)]\<rparr>"

subsection \<open>WorkItem\<close>

definition isFrame :: "WorkItem \<Rightarrow> bool" where
  "isFrame w = (case w of WORK_ITEM_FRAME f \<Rightarrow> True | WORK_ITEM_EVENT e \<Rightarrow> False)"

text \<open>A non-null \<^verbatim>\<open>WorkItem*\<close>: a frame of the pool, or any event.\<close>

definition validItem :: "DisplayQueue \<Rightarrow> WorkItem \<Rightarrow> bool" where
  "validItem s w = (case w of WORK_ITEM_FRAME f \<Rightarrow> f < length (maFrames s) | WORK_ITEM_EVENT e \<Rightarrow> True)"

definition isQueued :: "DisplayQueue \<Rightarrow> WorkItem \<Rightarrow> bool" where
  "isQueued s w = (case w of WORK_ITEM_FRAME f \<Rightarrow> mbQueued (maFrames s ! f)
                   | WORK_ITEM_EVENT e \<Rightarrow> evQueued e)"

definition getEffectiveFrame :: "DisplayQueue \<Rightarrow> WorkItem \<Rightarrow> FrameId" where
  "getEffectiveFrame s w = (case w of WORK_ITEM_FRAME f \<Rightarrow> mEffectiveFrame (maFrames s ! f)
                            | WORK_ITEM_EVENT e \<Rightarrow> evEffectiveFrame e)"

text \<open>\<^verbatim>\<open>pLastItem->setEffectiveFrame( id )\<close> on the last item of a ring that is not empty.\<close>

definition setEffectiveFrameLast :: "FrameId \<Rightarrow> DisplayQueue \<Rightarrow> DisplayQueue" where
  "setEffectiveFrameLast id' s =
     (case last (mpWorkQueue s) of
        WORK_ITEM_FRAME f \<Rightarrow> updFrame f (\<lambda>fr. fr\<lparr>mEffectiveFrame := id'\<rparr>) s
      | WORK_ITEM_EVENT e \<Rightarrow>
          s\<lparr>mpWorkQueue := butlast (mpWorkQueue s) @ [WORK_ITEM_EVENT (e\<lparr>evEffectiveFrame := id'\<rparr>)]\<rparr>)"

text \<open>
  \<^verbatim>\<open>WorkItem::queue\<close> links \<^verbatim>\<open>pNewWork\<close> behind the tail and \<^verbatim>\<open>WorkItem::dequeue\<close> unlinks
  \<^verbatim>\<open>pOldWork\<close>. For an event, which the queue dequeues at the head only, \<open>remove1\<close> takes
  out the first item equal to it.
\<close>

definition WorkItem_queue :: "WorkItem \<Rightarrow> DisplayQueue \<Rightarrow> error + DisplayQueue" where
  "WorkItem_queue pNewWork s =
     bindE (HWCASSERT (validItem s pNewWork)) (\<lambda>_.
     bindE (HWCASSERT (\<not> isQueued s pNewWork)) (\<lambda>_.
       Inr (case pNewWork of
              WORK_ITEM_FRAME f \<Rightarrow>
                updFrame f (\<lambda>fr. fr\<lparr>mbQueued := True\<rparr>)
                  (s\<lparr>mpWorkQueue := mpWorkQueue s @ [WORK_ITEM_FRAME f]\<rparr>)
            | WORK_ITEM_EVENT e \<Rightarrow>
                s\<lparr>mpWorkQueue := mpWorkQueue s @ [WORK_ITEM_EVENT (e\<lparr>evQueued := True\<rparr>)]\<rparr>)))"

definition WorkItem_dequeue :: "WorkItem \<Rightarrow> DisplayQueue \<Rightarrow> error + DisplayQueue" where
  "WorkItem_dequeue pOldWork s =
     bindE (HWCASSERT (validItem s pOldWork)) (\<lambda>_.
     bindE (HWCASSERT (isQueued s pOldWork)) (\<lambda>_.
     bindE (HWCASSERT (mpWorkQueue s \<noteq> [])) (\<lambda>_.
       let s = s\<lparr>mpWorkQueue := remove1 pOldWork (mpWorkQueue s)\<rparr>
       in Inr (case pOldWork of
                 WORK_ITEM_FRAME f \<Rightarrow> updFrame f (\<lambda>fr. fr\<lparr>mbQueued := False\<rparr>) s
               | WORK_ITEM_EVENT e \<Rightarrow> s))))"

subsection \<open>Worker\<close>

definition Worker_signalWork :: "Worker \<Rightarrow> error + Worker" where
  "Worker_signalWork w =
     bindE (HWCASSERT (0 \<le> mSignalled w)) (\<lambda>_. Inr (w\<lparr>mSignalled := mSignalled w + 1\<rparr>))"

text \<open>\<^verbatim>\<open>mpWorker->signalWork( )\<close>, for a worker that exists.\<close>

definition signalWork :: "DisplayQueue \<Rightarrow> error + DisplayQueue" where
  "signalWork s =
     (case mpWorker s of
        None \<Rightarrow> Inl AssertFailed
      | Some w \<Rightarrow> bindE (Worker_signalWork w) (\<lambda>w'. Inr (effect SignalWork (s\<lparr>mpWorker := Some w'\<rparr>))))"

definition startWorker :: "DisplayQueue \<Rightarrow> DisplayQueue" where
  "startWorker s =
     (if mpWorker s = None then effect StartWorker (s\<lparr>mpWorker := Some \<lparr>mSignalled = 0\<rparr>\<rparr>) else s)"

text \<open>
  A thread id is \<open>Some n\<close>; \<open>None\<close> is the default \<^verbatim>\<open>std::thread::id()\<close>, which names no
  thread. \<^verbatim>\<open>Worker::getId\<close> returns \<^verbatim>\<open>std::this_thread::get_id()\<close>, the id of the thread
  that calls it.
\<close>

definition Worker_getId :: "nat \<Rightarrow> nat option" where
  "Worker_getId this_id = Some this_id"

definition getWorkerTid :: "DisplayQueue \<Rightarrow> nat \<Rightarrow> nat option" where
  "getWorkerTid s this_id = (if mpWorker s = None then None else Worker_getId this_id)"

subsection \<open>Validation and the issued frame\<close>

fun validateRing :: "DisplayQueue \<Rightarrow> WorkItem list \<Rightarrow> error + unit" where
  "validateRing s [] = Inr ()"
| "validateRing s [w] = Inr ()"
| "validateRing s (w # pNext # ws) =
     bindE (validateFutureFrame (getEffectiveFrame s w) (getEffectiveFrame s pNext)) (\<lambda>_.
       validateRing s (pNext # ws))"

definition doValidateQueue :: "DisplayQueue \<Rightarrow> error + unit" where
  "doValidateQueue s =
     bindE (validateRing s (mpWorkQueue s)) (\<lambda>_.
       validateFutureFrame (mLastIssuedFrame s) (mLastQueuedFrame s))"

definition doAdvanceIssuedFrame :: "FrameId \<Rightarrow> DisplayQueue \<Rightarrow> error + DisplayQueue" where
  "doAdvanceIssuedFrame id' s =
     bindE (validateFutureFrame (mLastIssuedFrame s) id') (\<lambda>_.
       Inr (effect NotifyWorkConsumed (s\<lparr>mLastIssuedFrame := id'\<rparr>)))"

text \<open>
  Modelled from the spec: \<^verbatim>\<open>lockFrameForDisplay\<close> and \<^verbatim>\<open>unlockFrameForDisplay\<close> are
  defined in \<^verbatim>\<open>DisplayQueue.h\<close>. The first sets the frame's flag and increments
  \<open>mFramesLockedForDisplay\<close>; the second undoes it.
\<close>

definition lockFrameForDisplay :: "nat \<Rightarrow> DisplayQueue \<Rightarrow> DisplayQueue" where
  "lockFrameForDisplay f s =
     (updFrame f (\<lambda>fr. fr\<lparr>mbLockedForDisplay := True\<rparr>) s)
       \<lparr>mFramesLockedForDisplay := mFramesLockedForDisplay s + 1\<rparr>"

definition unlockFrameForDisplay :: "nat \<Rightarrow> DisplayQueue \<Rightarrow> DisplayQueue" where
  "unlockFrameForDisplay f s =
     (updFrame f (\<lambda>fr. fr\<lparr>mbLockedForDisplay := False\<rparr>) s)
       \<lparr>mFramesLockedForDisplay := mFramesLockedForDisplay s - 1\<rparr>"

subsection \<open>Dropping frames\<close>

definition dropFrame :: "nat \<Rightarrow> DisplayQueue \<Rightarrow> error + DisplayQueue" where
  "dropFrame f s =
     bindE (HWCASSERT (f < length (maFrames s))) (\<lambda>_.
     bindE (HWCASSERT (mType (maFrames s ! f) = eFT_DISPLAY_QUEUE)) (\<lambda>_.
     bindE (HWCASSERT (mbQueued (maFrames s ! f))) (\<lambda>_.
     bindE (HWCASSERT (\<not> mbLockedForDisplay (maFrames s ! f))) (\<lambda>_.
     bindE (WorkItem_dequeue (WORK_ITEM_FRAME f) (s\<lparr>mLastDroppedFrame := mFrameId (maFrames s ! f)\<rparr>)) (\<lambda>s.
     bindE (HWCASSERT (mQueuedFrames s \<noteq> 0)) (\<lambda>_.
     bindE (HWCASSERT (mQueuedWork s \<noteq> 0)) (\<lambda>_.
     bindE (HWCASSERT (mFramePoolUsed s \<noteq> 0)) (\<lambda>_.
       Inr (effect NotifyWorkConsumed
              (updFrame f (Frame_reset True)
                 (s\<lparr>mQueuedFrames := mQueuedFrames s - 1, mQueuedWork := mQueuedWork s - 1,
                    mFramePoolUsed := mFramePoolUsed s - 1\<rparr>)))))))))))"

text \<open>
  The loop of \<^verbatim>\<open>doDropRedundantFrames\<close>. It steps along \<^verbatim>\<open>getLast()\<close> from the item
  before the newest one down to the head; \<open>ws\<close> lists the items still to be visited,
  in the order of the visit. \<^verbatim>\<open>pNext\<close> is read before \<^verbatim>\<open>pCurrent\<close> is dropped, and a drop
  unlinks \<^verbatim>\<open>pCurrent\<close> only, so the items to visit are those of the ring at entry.
\<close>

fun dropRedundantLoop :: "WorkItem list \<Rightarrow> bool \<Rightarrow> DisplayQueue \<Rightarrow> error + DisplayQueue" where
  "dropRedundantLoop [] bNewerComplete s = Inr s"
| "dropRedundantLoop (WORK_ITEM_EVENT e # ws) bNewerComplete s = dropRedundantLoop ws bNewerComplete s"
| "dropRedundantLoop (WORK_ITEM_FRAME f # ws) bNewerComplete s =
     (if bNewerComplete
      then (if \<not> mbLockedForDisplay (maFrames s ! f)
            then bindE (dropFrame f s) (dropRedundantLoop ws bNewerComplete)
            else dropRedundantLoop ws bNewerComplete s)
      else dropRedundantLoop ws (Frame_isRenderingComplete (maFrames s ! f)) s)"

definition frameComplete :: "DisplayQueue \<Rightarrow> WorkItem \<Rightarrow> bool" where
  "frameComplete s w = (case w of WORK_ITEM_FRAME f \<Rightarrow> Frame_isRenderingComplete (maFrames s ! f)
                        | WORK_ITEM_EVENT e \<Rightarrow> False)"

definition doDropRedundantFrames :: "DisplayQueue \<Rightarrow> error + DisplayQueue" where
  "doDropRedundantFrames s =
     (if mpWorkQueue s = [] then Inr s
      else if length (mpWorkQueue s) = 1 then Inr s
      else dropRedundantLoop (rev (butlast (mpWorkQueue s)))
             (frameComplete s (last (mpWorkQueue s))) s)"

definition droppable :: "DisplayQueue \<Rightarrow> WorkItem \<Rightarrow> bool" where
  "droppable s w = (case w of
       WORK_ITEM_FRAME f \<Rightarrow> \<not> mbLockedForDisplay (maFrames s ! f) \<and> mType (maFrames s ! f) = eFT_DISPLAY_QUEUE
     | WORK_ITEM_EVENT e \<Rightarrow> False)"

text \<open>
  The loop of \<^verbatim>\<open>dropAllFrames\<close>, from the head along \<^verbatim>\<open>getNext()\<close>, once around the ring.
\<close>

fun dropAllLoop :: "WorkItem list \<Rightarrow> DisplayQueue \<Rightarrow> error + DisplayQueue" where
  "dropAllLoop [] s = Inr s"
| "dropAllLoop (WORK_ITEM_EVENT e # ws) s = dropAllLoop ws s"
| "dropAllLoop (WORK_ITEM_FRAME f # ws) s =
     (if droppable s (WORK_ITEM_FRAME f) then bindE (dropFrame f s) (dropAllLoop ws)
      else dropAllLoop ws s)"

definition dropAllFrames :: "DisplayQueue \<Rightarrow> error + DisplayQueue" where
  "dropAllFrames s =
     bindE (doValidateQueue s) (\<lambda>_.
     bindE (dropAllLoop (mpWorkQueue s) s) (\<lambda>s.
     bindE (doValidateQueue s) (\<lambda>_. Inr s)))"

definition dropRedundantFrames :: "DisplayQueue \<Rightarrow> error + DisplayQueue" where
  "dropRedundantFrames s = doDropRedundantFrames s"

fun invalidateLoop :: "WorkItem list \<Rightarrow> DisplayQueue \<Rightarrow> DisplayQueue" where
  "invalidateLoop [] s = s"
| "invalidateLoop (WORK_ITEM_EVENT e # ws) s = invalidateLoop ws s"
| "invalidateLoop (WORK_ITEM_FRAME f # ws) s =
     (if droppable s (WORK_ITEM_FRAME f) then invalidateLoop ws (updFrame f Frame_invalidate s)
      else invalidateLoop ws s)"

definition doInvalidateFrames :: "DisplayQueue \<Rightarrow> error + DisplayQueue" where
  "doInvalidateFrames s =
     bindE (doValidateQueue s) (\<lambda>_.
       let s = invalidateLoop (mpWorkQueue s) s
       in bindE (doValidateQueue s) (\<lambda>_. Inr s))"

text \<open>
  After \<^verbatim>\<open>doDropRedundantFrames\<close> the source returns when the pool is below its limit; the
  timed wait that would follow otherwise is not compiled, so both branches end there.
\<close>

definition limitUsedFrames :: "DisplayQueue \<Rightarrow> error + DisplayQueue" where
  "limitUsedFrames s =
     bindE (doDropRedundantFrames s) (\<lambda>s.
       if mFramePoolUsed s < mFramePoolLimit s then Inr s else Inr s)"

text \<open>
  The scan of \<^verbatim>\<open>findFree\<close> over the pool, \<open>fs\<close> listing the indices still to visit:
  \<open>Inl f\<close> is the early return of an unused frame, \<open>Inr pOldest\<close> the end of the loop.
\<close>

fun findFreeLoop :: "Frame list \<Rightarrow> nat list \<Rightarrow> nat option \<Rightarrow> nat + nat option" where
  "findFreeLoop pool [] pOldest = Inr pOldest"
| "findFreeLoop pool (f # fs) pOldest =
     (if mbLockedForDisplay (pool ! f) then findFreeLoop pool fs pOldest
      else if \<not> mbQueued (pool ! f) then Inl f
      else if (case pOldest of None \<Rightarrow> True
               | Some p \<Rightarrow> 0 < sint (mTimelineIndex (mFrameId (pool ! p))
                                     - mTimelineIndex (mFrameId (pool ! f))))
           then findFreeLoop pool fs (Some f)
           else findFreeLoop pool fs pOldest)"

definition findFree :: "DisplayQueue \<Rightarrow> error + (nat option \<times> DisplayQueue)" where
  "findFree s =
     (case findFreeLoop (maFrames s) [0 ..< length (maFrames s)] None of
        Inl f \<Rightarrow> Inr (Some f, s)
      | Inr None \<Rightarrow> Inr (None, s)
      | Inr (Some pOldest) \<Rightarrow> bindE (dropFrame pOldest s) (\<lambda>s. Inr (Some pOldest, s)))"

subsection \<open>Enqueue paths\<close>

definition doQueueWork :: "WorkItem \<Rightarrow> DisplayQueue \<Rightarrow> error + DisplayQueue" where
  "doQueueWork pWork s =
     bindE (HWCASSERT (validItem s pWork)) (\<lambda>_.
     bindE (HWCASSERT ((mQueuedWork s = 0 \<and> mpWorkQueue s = [])
                      \<or> (mQueuedWork s \<noteq> 0 \<and> mpWorkQueue s \<noteq> []))) (\<lambda>_.
     bindE (validateFutureFrame (mLastIssuedFrame s) (getEffectiveFrame s pWork)) (\<lambda>_.
     bindE (WorkItem_queue pWork s) (\<lambda>s.
       let s = s\<lparr>mQueuedWork := mQueuedWork s + 1\<rparr>;
           s = (if isFrame pWork then s\<lparr>mQueuedFrames := mQueuedFrames s + 1\<rparr> else s);
           s = (if mpWorker s = None then startWorker s else s)
       in bindE (if mpWorker s \<noteq> None then signalWork s else Inr s) (\<lambda>s.
          bindE (doValidateQueue s) (\<lambda>_. Inr s))))))"

definition queueEvent :: "Event \<Rightarrow> DisplayQueue \<Rightarrow> error + (int \<times> DisplayQueue)" where
  "queueEvent pEvent s =
     bindE (doQueueWork (WORK_ITEM_EVENT (pEvent\<lparr>evEffectiveFrame := mLastQueuedFrame s\<rparr>)) s) (\<lambda>s.
       Inr (OK, s))"

definition queueFrame ::
  "Layer list \<Rightarrow> 32 word \<Rightarrow> FrameId \<Rightarrow> nat \<Rightarrow> bool \<Rightarrow> DisplayQueue \<Rightarrow> error + (int \<times> DisplayQueue)" where
  "queueFrame stack zorder id' config allocOk s =
     bindE (validateFutureFrame (mLastQueuedFrame s) id') (\<lambda>_.
     bindE (limitUsedFrames s) (\<lambda>s.
     bindE (findFree s) (\<lambda>(pNewFrame, s).
       case pNewFrame of
         None \<Rightarrow> Inr (- ENOSYS, s)
       | Some f \<Rightarrow>
           bindE (HWCASSERT (mType (maFrames s ! f) = eFT_DISPLAY_QUEUE)) (\<lambda>_.
             let s = s\<lparr>mFramePoolUsed := mFramePoolUsed s + 1\<rparr>;
                 s = (if mFramePoolUsed s > mFramePoolPeak s
                      then s\<lparr>mFramePoolPeak := mFramePoolUsed s\<rparr> else s)
             in bindE (Frame_set stack zorder id' config allocOk (maFrames s ! f)) (\<lambda>(ok, fr).
                  let s = updFrame f (\<lambda>_. fr) s
                  in if \<not> ok then Inr (- ENOSYS, s)
                     else
                       let s = updFrame f (\<lambda>fr. fr\<lparr>mEffectiveFrame := id'\<rparr>) s;
                           s = s\<lparr>mLastQueuedFrame := id'\<rparr>
                       in bindE (doQueueWork (WORK_ITEM_FRAME f) s) (\<lambda>s. Inr (OK, s)))))))"

definition queueDrop :: "FrameId \<Rightarrow> DisplayQueue \<Rightarrow> error + DisplayQueue" where
  "queueDrop id' s =
     bindE (validateFutureFrame (mLastQueuedFrame s) id') (\<lambda>_.
     bindE (if mpWorkQueue s = [] then doAdvanceIssuedFrame id' s
            else Inr (setEffectiveFrameLast id' s)) (\<lambda>s.
       let s = s\<lparr>mLastQueuedFrame := id'\<rparr>
       in bindE (doValidateQueue s) (\<lambda>_. Inr s)))"

subsection \<open>Release, blocking, readiness\<close>

definition doReleaseFrame :: "nat \<Rightarrow> DisplayQueue \<Rightarrow> error + DisplayQueue" where
  "doReleaseFrame f s =
     bindE (HWCASSERT (f < length (maFrames s))) (\<lambda>_.
     bindE (HWCASSERT (mType (maFrames s ! f) = eFT_DISPLAY_QUEUE)) (\<lambda>_.
     bindE (HWCASSERT (mbLockedForDisplay (maFrames s ! f))) (\<lambda>_.
     bindE (doValidateQueue s) (\<lambda>_.
       let s = updFrame f (Frame_reset False) s
       in bindE (HWCASSERT (mFramesLockedForDisplay s \<noteq> 0)) (\<lambda>_.
          bindE (HWCASSERT (mFramePoolUsed s \<noteq> 0)) (\<lambda>_.
            let s = s\<lparr>mFramesLockedForDisplay := mFramesLockedForDisplay s - 1,
                      mFramePoolUsed := mFramePoolUsed s - 1\<rparr>
            in bindE (doValidateQueue s) (\<lambda>_. Inr (effect NotifyFrameReleased s))))))))"

definition releaseFrame :: "nat \<Rightarrow> DisplayQueue \<Rightarrow> error + DisplayQueue" where
  "releaseFrame f s = doReleaseFrame f s"

definition consumerBlocked :: "DisplayQueue \<Rightarrow> DisplayQueue" where
  "consumerBlocked s = effect NotifyWorkConsumed (s\<lparr>mbConsumerBlocked := True\<rparr>)"

definition consumerUnblocked :: "DisplayQueue \<Rightarrow> error + DisplayQueue" where
  "consumerUnblocked s =
     bindE (HWCASSERT (mbConsumerBlocked s)) (\<lambda>_.
       Inr (effect NotifyWorkConsumed (s\<lparr>mbConsumerBlocked := False\<rparr>)))"

definition notifyReady :: "DisplayQueue \<Rightarrow> error + DisplayQueue" where
  "notifyReady s = (if mpWorker s \<noteq> None then signalWork s else Inr s)"

definition init :: "string \<Rightarrow> DisplayQueue \<Rightarrow> DisplayQueue" where
  "init threadName s = s\<lparr>mName := threadName, mConsumedFramesSinceInit := 0\<rparr>"

subsection \<open>Flush\<close>

definition flushWaitCond :: "int \<Rightarrow> 32 word \<Rightarrow> 32 word \<Rightarrow> DisplayQueue \<Rightarrow> bool" where
  "flushWaitCond maxConsume startConsumeCount frameIndex s \<longleftrightarrow>
     \<not> mbConsumerBlocked s
     \<and> mQueuedWork s \<noteq> 0
     \<and> sint (mConsumedWork s - startConsumeCount) < maxConsume
     \<and> (frameIndex = 0 \<or> 0 < sint (frameIndex - mHwcIndex (mLastIssuedFrame s)))"

text \<open>
  The \<^verbatim>\<open>while\<close> loop of \<^verbatim>\<open>doFlush\<close>. The wait on \<^verbatim>\<open>mConditionWorkConsumed\<close> is under
  \<^verbatim>\<open>#ifdef uncomment\<close>: the body that is compiled only signals the worker, and the queue
  lock stays held. The loop need not end, so its result is an \<open>option\<close>: \<open>None\<close> when it
  runs forever.
\<close>

partial_function (option) doFlushLoop ::
  "int \<Rightarrow> 32 word \<Rightarrow> 32 word \<Rightarrow> DisplayQueue \<Rightarrow> (error + DisplayQueue) option" where
  "doFlushLoop maxConsume startConsumeCount frameIndex s =
     (if flushWaitCond maxConsume startConsumeCount frameIndex s
      then (case signalWork s of
              Inl e \<Rightarrow> Some (Inl e)
            | Inr s' \<Rightarrow> doFlushLoop maxConsume startConsumeCount frameIndex s')
      else Some (Inr s))"

definition doFlush :: "32 word \<Rightarrow> int \<Rightarrow> DisplayQueue \<Rightarrow> (error + (bool \<times> DisplayQueue)) option" where
  "doFlush frameIndex timeoutNs s =
     (case (if mpWorker s \<noteq> None
            then doFlushLoop (sint (mQueuedWork s)) (mConsumedWork s) frameIndex s
            else Some (Inr s)) of
        None \<Rightarrow> None
      | Some (Inl e) \<Rightarrow> Some (Inl e)
      | Some (Inr s) \<Rightarrow>
          if mbConsumerBlocked s then Some (Inr (False, s))
          else Some (Inr (True, effect SyncFlip s)))"

text \<open>
  \<^verbatim>\<open>flush\<close> is declared \<^verbatim>\<open>void\<close>. \<open>flush_bFlushed\<close> computes its local \<^verbatim>\<open>bFlushed\<close>, with
  the short-circuit evaluation of \<^verbatim>\<open>&&\<close>, and the state after it; \<open>flush\<close> is the
  whole function.
\<close>

definition flush_bFlushed ::
  "nat \<Rightarrow> 32 word \<Rightarrow> int \<Rightarrow> DisplayQueue \<Rightarrow> (error + (bool \<times> DisplayQueue)) option" where
  "flush_bFlushed this_id frameIndex timeoutNs s =
     (if getWorkerTid s this_id \<noteq> Some this_id
      then (if \<not> mbConsumerBlocked s then doFlush frameIndex timeoutNs s
            else Some (Inr (False, s)))
      else Some (Inr (False, s)))"

definition flush :: "nat \<Rightarrow> 32 word \<Rightarrow> int \<Rightarrow> DisplayQueue \<Rightarrow> (error + DisplayQueue) option" where
  "flush this_id frameIndex timeoutNs s =
     (case flush_bFlushed this_id frameIndex timeoutNs s of
        None \<Rightarrow> None
      | Some (Inl e) \<Rightarrow> Some (Inl e)
      | Some (Inr (bFlushed, s)) \<Rightarrow>
          if \<not> bFlushed then Some (doInvalidateFrames s) else Some (Inr s))"

subsection \<open>The consumer\<close>

text \<open>
  \<^verbatim>\<open>doConsumeEvent\<close> up to \<^verbatim>\<open>mLockQueue.unlock( )\<close>; the backend's \<^verbatim>\<open>consumeWork( pEvent )\<close>
  runs in the window that follows.
\<close>

definition doConsumeEvent_issue :: "Event \<Rightarrow> DisplayQueue \<Rightarrow> error + DisplayQueue" where
  "doConsumeEvent_issue pEvent s =
     bindE (HWCASSERT (mpWorkQueue s \<noteq> [])) (\<lambda>_.
     bindE (HWCASSERT (mQueuedWork s \<noteq> 0)) (\<lambda>_.
     bindE (validateFutureFrame (mLastIssuedFrame s) (evEffectiveFrame pEvent)) (\<lambda>_.
       Inr (effect (BackendConsumeEvent pEvent) (s\<lparr>mPhase := PhaseEventIssued\<rparr>)))))"

text \<open>
  \<^verbatim>\<open>doConsumeEvent\<close> from \<^verbatim>\<open>mLockQueue.lock( )\<close> on. \<^verbatim>\<open>pEvent\<close> is the head it was: events
  are not dropped and nothing is queued before the head.
\<close>

definition doConsumeEvent_retire :: "DisplayQueue \<Rightarrow> error + DisplayQueue" where
  "doConsumeEvent_retire s =
     (case mpWorkQueue s of
        WORK_ITEM_EVENT pEvent # ws \<Rightarrow>
          bindE (doValidateQueue s) (\<lambda>_.
          bindE (HWCASSERT (mQueuedWork s \<noteq> 0)) (\<lambda>_.
          bindE (WorkItem_dequeue (WORK_ITEM_EVENT pEvent) s) (\<lambda>s.
            let s = s\<lparr>mQueuedWork := mQueuedWork s - 1, mConsumedWork := mConsumedWork s + 1\<rparr>
            in bindE (doAdvanceIssuedFrame (evEffectiveFrame pEvent) s) (\<lambda>s.
                 Inr (effect (DeleteEvent (pEvent\<lparr>evQueued := False\<rparr>)) (s\<lparr>mPhase := PhaseIdle\<rparr>))))))
      | _ \<Rightarrow> Inl AssertFailed)"

text \<open>
  \<^verbatim>\<open>doConsumeFrame\<close> from the dequeue of \<^verbatim>\<open>pFrame\<close> to the \<^verbatim>\<open>unlock\<close> before the flip; the
  backend's \<^verbatim>\<open>consumeWork( pFrame )\<close> runs in the window that follows, and the local
  \<^verbatim>\<open>effectiveIssuedFrame\<close> is kept across it.
\<close>

definition doConsumeFrame_flip :: "nat \<Rightarrow> DisplayQueue \<Rightarrow> error + DisplayQueue" where
  "doConsumeFrame_flip pFrame s =
     bindE (HWCASSERT (mQueuedFrames s \<noteq> 0)) (\<lambda>_.
     bindE (HWCASSERT (mQueuedWork s \<noteq> 0)) (\<lambda>_.
     bindE (WorkItem_dequeue (WORK_ITEM_FRAME pFrame) s) (\<lambda>s.
       let s = s\<lparr>mQueuedFrames := mQueuedFrames s - 1, mQueuedWork := mQueuedWork s - 1,
                 mConsumedFramesSinceInit := mConsumedFramesSinceInit s + 1,
                 mConsumedWork := mConsumedWork s + 1\<rparr>;
           effectiveIssuedFrame = mEffectiveFrame (maFrames s ! pFrame)
       in bindE (HWCASSERT (0 \<le> sint (mHwcIndex effectiveIssuedFrame
                                        - mHwcIndex (mFrameId (maFrames s ! pFrame))))) (\<lambda>_.
            Inr (effect (BackendConsumeFrame pFrame)
                   (s\<lparr>mPhase := PhaseFlipIssued effectiveIssuedFrame\<rparr>))))))"

text \<open>\<^verbatim>\<open>doConsumeFrame\<close> up to its first \<^verbatim>\<open>unlock\<close>.\<close>

definition doConsumeFrame_start :: "nat \<Rightarrow> DisplayQueue \<Rightarrow> error + DisplayQueue" where
  "doConsumeFrame_start pFrame s =
     bindE (HWCASSERT (mpWorkQueue s \<noteq> [])) (\<lambda>_.
     bindE (HWCASSERT (mQueuedWork s \<noteq> 0)) (\<lambda>_.
     bindE (HWCASSERT (mQueuedFrames s \<noteq> 0)) (\<lambda>_.
     bindE (HWCASSERT (mFramesLockedForDisplay s \<le> 1)) (\<lambda>_.
     bindE (HWCASSERT (pFrame < length (maFrames s))) (\<lambda>_.
     bindE (HWCASSERT (mType (maFrames s ! pFrame) = eFT_DISPLAY_QUEUE)) (\<lambda>_.
     bindE (validateFutureFrame (mLastIssuedFrame s) (mEffectiveFrame (maFrames s ! pFrame))) (\<lambda>_.
     bindE (validateFutureFrame (mLastIssuedFrame s) (mFrameId (maFrames s ! pFrame))) (\<lambda>_.
       let s = lockFrameForDisplay pFrame s
       in if and (mBehaviourFlags s) eBF_SYNC_BEFORE_FLIP \<noteq> 0
          then Inr (s\<lparr>mPhase := PhaseWaitRendering pFrame\<rparr>)
          else doConsumeFrame_flip pFrame s))))))))"

text \<open>
  \<^verbatim>\<open>doConsumeFrame\<close> after \<^verbatim>\<open>waitRendering\<close>, whose body is not compiled, from the
  \<^verbatim>\<open>lock\<close> to the \<^verbatim>\<open>unlock\<close> before the flip or to the early \<^verbatim>\<open>return\<close>.
\<close>

definition doConsumeFrame_synced :: "nat \<Rightarrow> DisplayQueue \<Rightarrow> error + DisplayQueue" where
  "doConsumeFrame_synced pFrame s =
     bindE (doValidateQueue s) (\<lambda>_.
     bindE (HWCASSERT (mpWorkQueue s \<noteq> [] \<and> hd (mpWorkQueue s) = WORK_ITEM_FRAME pFrame)) (\<lambda>_.
     bindE (HWCASSERT (pFrame < length (maFrames s) \<and> mbLockedForDisplay (maFrames s ! pFrame))) (\<lambda>_.
     bindE (doDropRedundantFrames (unlockFrameForDisplay pFrame s)) (\<lambda>s.
     bindE (HWCASSERT (mpWorkQueue s \<noteq> [])) (\<lambda>_.
       case mpWorkQueue s of
         WORK_ITEM_FRAME pFrame # ws \<Rightarrow>
           let s = lockFrameForDisplay pFrame s
           in bindE (HWCASSERT (mType (maFrames s ! pFrame) = eFT_DISPLAY_QUEUE)) (\<lambda>_.
                doConsumeFrame_flip pFrame s)
       | _ \<Rightarrow> Inr (s\<lparr>mPhase := PhaseIdle\<rparr>))))))"

text \<open>\<^verbatim>\<open>doConsumeFrame\<close> after the flip, from the last \<^verbatim>\<open>lock\<close> on.\<close>

definition doConsumeFrame_retire :: "FrameId \<Rightarrow> DisplayQueue \<Rightarrow> error + DisplayQueue" where
  "doConsumeFrame_retire effectiveIssuedFrame s =
     bindE (doValidateQueue s) (\<lambda>_.
     bindE (doAdvanceIssuedFrame effectiveIssuedFrame s) (\<lambda>s.
       Inr (s\<lparr>mPhase := PhaseIdle\<rparr>)))"

text \<open>\<^verbatim>\<open>doConsumeWork\<close> up to its first \<^verbatim>\<open>unlock\<close>, or to its \<^verbatim>\<open>return false\<close>.\<close>

definition doConsumeWork_start :: "DisplayQueue \<Rightarrow> error + DisplayQueue" where
  "doConsumeWork_start s =
     bindE (doValidateQueue s) (\<lambda>_.
       case mpWorkQueue s of
         [] \<Rightarrow> bindE (HWCASSERT (mQueuedWork s = 0)) (\<lambda>_. Inr s)
       | WORK_ITEM_FRAME f # ws \<Rightarrow>
           bindE (HWCASSERT (mQueuedWork s \<noteq> 0)) (\<lambda>_. doConsumeFrame_start f s)
       | WORK_ITEM_EVENT e # ws \<Rightarrow>
           bindE (HWCASSERT (mQueuedWork s \<noteq> 0)) (\<lambda>_. doConsumeEvent_issue e s))"

text \<open>
  One locked section of \<^verbatim>\<open>consumeWork\<close>: the one that starts a call when the worker is
  idle, else the one that follows the window the worker is in.
\<close>

definition consumeWork_section :: "DisplayQueue \<Rightarrow> error + DisplayQueue" where
  "consumeWork_section s =
     (case mPhase s of
        PhaseIdle \<Rightarrow> doConsumeWork_start s
      | PhaseEventIssued \<Rightarrow> doConsumeEvent_retire s
      | PhaseWaitRendering pFrame \<Rightarrow> doConsumeFrame_synced pFrame s
      | PhaseFlipIssued effectiveIssuedFrame \<Rightarrow> doConsumeFrame_retire effectiveIssuedFrame s)"

text \<open>
  \<^verbatim>\<open>consumeWork\<close> with no other thread running in its windows: the sections one after
  the other, at most three. The result is what \<^verbatim>\<open>doConsumeWork\<close> returns.
\<close>

definition consumeWork :: "DisplayQueue \<Rightarrow> error + (bool \<times> DisplayQueue)" where
  "consumeWork s =
     (if mpWorkQueue s = [] then bindE (doConsumeWork_start s) (\<lambda>s. Inr (False, s))
      else
        bindE (doConsumeWork_start s) (\<lambda>s.
        bindE (if mPhase s = PhaseIdle then Inr s else consumeWork_section s) (\<lambda>s.
        bindE (if mPhase s = PhaseIdle then Inr s else consumeWork_section s) (\<lambda>s.
          Inr (True, s)))))"

subsection \<open>Operations\<close>

datatype Operation =
    OpInit string
  | OpQueueEvent Event
  | OpQueueFrame "Layer list" "32 word" FrameId nat bool
  | OpQueueDrop FrameId
  | OpDropAllFrames
  | OpDropRedundantFrames
  | OpConsumeWork
  | OpFlush nat "32 word" int
  | OpConsumerBlocked
  | OpConsumerUnblocked
  | OpNotifyReady
  | OpReleaseFrame nat

text \<open>
  One locked section of a public operation. \<open>OpConsumeWork\<close> is one section of
  \<^verbatim>\<open>consumeWork\<close>; every other operation is a single section. \<open>None\<close> is an operation
  that does not return.
\<close>

definition perform :: "Operation \<Rightarrow> DisplayQueue \<Rightarrow> (error + DisplayQueue) option" where
  "perform op s =
     (case op of
        OpInit n \<Rightarrow> Some (Inr (init n s))
      | OpQueueEvent e \<Rightarrow> Some (bindE (queueEvent e s) (\<lambda>(r, s). Inr s))
      | OpQueueFrame stack zorder id' config allocOk \<Rightarrow>
          Some (bindE (queueFrame stack zorder id' config allocOk s) (\<lambda>(r, s). Inr s))
      | OpQueueDrop id' \<Rightarrow> Some (queueDrop id' s)
      | OpDropAllFrames \<Rightarrow> Some (dropAllFrames s)
      | OpDropRedundantFrames \<Rightarrow> Some (dropRedundantFrames s)
      | OpConsumeWork \<Rightarrow> Some (consumeWork_section s)
      | OpFlush this_id frameIndex timeoutNs \<Rightarrow> flush this_id frameIndex timeoutNs s
      | OpConsumerBlocked \<Rightarrow> Some (Inr (consumerBlocked s))
      | OpConsumerUnblocked \<Rightarrow> Some (consumerUnblocked s)
      | OpNotifyReady \<Rightarrow> Some (notifyReady s)
      | OpReleaseFrame f \<Rightarrow> Some (releaseFrame f s))"

text \<open>
  A run of operations: the states passed through, the first one included. The run
  stops at the first operation that aborts or does not return.
\<close>

fun run :: "Operation list \<Rightarrow> DisplayQueue \<Rightarrow> DisplayQueue list" where
  "run [] s = [s]"
| "run (op # ops) s =
     (case perform op s of
        Some (Inr s') \<Rightarrow> s # run ops s'
      | _ \<Rightarrow> [s])"

declare doFlushLoop.simps [code]

subsection \<open>Predicates and example states used by the properties\<close>

text \<open>The layer array of a frame is as long as \<open>mLayerAllocCount\<close> says and holds the layers in use.\<close>

definition Frame_wf :: "Frame \<Rightarrow> bool" where
  "Frame_wf f \<longleftrightarrow> mLayerCount f \<le> mLayerAllocCount f \<and> length (maLayers f) = mLayerAllocCount f"

definition exLayer :: Layer where
  "exLayer = Layer_new\<lparr>lRenderingDone := True\<rparr>"

definition exId :: "32 word \<Rightarrow> FrameId" where
  "exId n = \<lparr>mTimelineIndex = n, mHwcIndex = n\<rparr>"

text \<open>A frame set up by \<^verbatim>\<open>Frame::set\<close> with a stack of two layers.\<close>

definition exFrame2 :: Frame where
  "exFrame2 = (case Frame_set [exLayer, exLayer] 0 (exId 1) 0 True Frame_new of
                 Inr (ok, f) \<Rightarrow> f | Inl e \<Rightarrow> Frame_new)"

text \<open>The tracking ids of the queued and of the issued frame are those of \<open>s\<close>.\<close>

definition sameIds :: "DisplayQueue \<Rightarrow> DisplayQueue \<Rightarrow> bool" where
  "sameIds s s' \<longleftrightarrow> mLastQueuedFrame s' = mLastQueuedFrame s \<and> mLastIssuedFrame s' = mLastIssuedFrame s"

text \<open>
  The pool accounting of the spec: \<open>mFramePoolUsed\<close> is the number of display-queue
  frames linked in the ring plus \<open>mFramesLockedForDisplay\<close>.
\<close>

definition queuedPoolFrames :: "DisplayQueue \<Rightarrow> nat" where
  "queuedPoolFrames s =
     length (filter (\<lambda>w. case w of WORK_ITEM_FRAME f \<Rightarrow> mType (maFrames s ! f) = eFT_DISPLAY_QUEUE
                         | WORK_ITEM_EVENT e \<Rightarrow> False) (mpWorkQueue s))"

definition poolAccounted :: "DisplayQueue \<Rightarrow> bool" where
  "poolAccounted s \<longleftrightarrow> mFramePoolUsed s = of_nat (queuedPoolFrames s) + mFramesLockedForDisplay s"

text \<open>A new queue with a pool of four frames, and \<^verbatim>\<open>queueFrame\<close> on it when the layer allocation fails.\<close>

definition exFresh :: DisplayQueue where
  "exFresh = DisplayQueue_new 4 3 0"

definition exAllocFail :: "error + (int \<times> DisplayQueue)" where
  "exAllocFail = queueFrame [exLayer] 0 (exId 1) 0 False exFresh"

text \<open>
  A queue with a pool of one frame, after that frame was queued and the worker has
  issued its flip: the only pool frame is locked for display.
\<close>

definition exAllLocked :: DisplayQueue where
  "exAllLocked = last (run [OpQueueFrame [exLayer] 0 (exId 1) 0 True, OpConsumeWork] (DisplayQueue_new 1 1 0))"

text \<open>
  The event-ordering run of the spec: a frame, an event, a frame, then the worker
  consuming them section by section and the backend releasing each frame.
\<close>

definition exOps :: "Operation list" where
  "exOps = [OpQueueFrame [exLayer] 0 (exId 5) 0 True, OpQueueEvent (Event_new 42),
            OpQueueFrame [exLayer] 0 (exId 6) 0 True,
            OpConsumeWork, OpConsumeWork, OpReleaseFrame 0,
            OpConsumeWork, OpConsumeWork,
            OpConsumeWork, OpConsumeWork, OpReleaseFrame 1]"

text \<open>The new queue after one frame was queued, and after an event was queued behind it.\<close>

definition exOneFrame :: DisplayQueue where
  "exOneFrame = last (run [OpQueueFrame [exLayer] 0 (exId 1) 0 True] exFresh)"

definition exFrameEvent :: DisplayQueue where
  "exFrameEvent = last (run [OpQueueFrame [exLayer] 0 (exId 1) 0 True, OpQueueEvent (Event_new 42)] exFresh)"

text \<open>The timeline index of the frame id of pool frame \<open>f\<close>, which \<^verbatim>\<open>findFree\<close> compares.\<close>

definition tlOf :: "Frame list \<Rightarrow> nat \<Rightarrow> 32 word" where
  "tlOf pool f = mTimelineIndex (mFrameId (pool ! f))"

text \<open>A queue with a pool of two frames, both queued and neither rendered yet.\<close>

definition exBothQueued :: DisplayQueue where
  "exBothQueued = last (run [OpQueueFrame [exLayer\<lparr>lRenderingDone := False\<rparr>] 0 (exId 1) 0 True,
                             OpQueueFrame [exLayer\<lparr>lRenderingDone := False\<rparr>] 0 (exId 2) 0 True] (DisplayQueue_new 2 2 0))"

definition exOldestDropped :: DisplayQueue where
  "exOldestDropped = snd (projr (findFree exBothQueued))"

text \<open>
  \<^verbatim>\<open>dropRedundantFrames\<close> in the words of the spec, on the ring alone. The walk goes from
  the item before the tail back to the head, \<open>ws\<close> listing the items in that order, and
  keeps the flag \<open>newerComplete\<close>: an event is kept; a frame met with the flag set is
  dropped unless it is locked for display; a frame met with the flag clear is kept and
  the flag becomes that frame's \<^verbatim>\<open>isRenderingComplete()\<close>. The flag starts as whether the
  tail is a frame whose rendering is complete. The result lists the items that stay.
\<close>

definition completeFrame :: "Frame list \<Rightarrow> WorkItem \<Rightarrow> bool" where
  "completeFrame pool w = (case w of WORK_ITEM_FRAME f \<Rightarrow> Frame_isRenderingComplete (pool ! f)
                           | WORK_ITEM_EVENT e \<Rightarrow> False)"

definition unlockedFrame :: "Frame list \<Rightarrow> WorkItem \<Rightarrow> bool" where
  "unlockedFrame pool w = (case w of WORK_ITEM_FRAME f \<Rightarrow> \<not> mbLockedForDisplay (pool ! f)
                           | WORK_ITEM_EVENT e \<Rightarrow> False)"

fun specRedundantWalk :: "Frame list \<Rightarrow> bool \<Rightarrow> WorkItem list \<Rightarrow> WorkItem list" where
  "specRedundantWalk pool newerComplete [] = []"
| "specRedundantWalk pool newerComplete (w # ws) =
     (if isFrame w
      then (if newerComplete
            then (if unlockedFrame pool w then specRedundantWalk pool newerComplete ws
                  else w # specRedundantWalk pool newerComplete ws)
            else w # specRedundantWalk pool (completeFrame pool w) ws)
      else w # specRedundantWalk pool newerComplete ws)"

definition specDropRedundant :: "Frame list \<Rightarrow> WorkItem list \<Rightarrow> WorkItem list" where
  "specDropRedundant pool ring =
     (case rev ring of
        [] \<Rightarrow> []
      | tail # earlier \<Rightarrow> rev (specRedundantWalk pool (completeFrame pool tail) earlier) @ [tail])"

text \<open>
  The same result said without a walk: an item leaves the ring exactly when it is a
  frame that is not locked for display and some item after it in the ring is a frame
  whose rendering is complete.
\<close>

fun nonRedundant :: "Frame list \<Rightarrow> WorkItem list \<Rightarrow> WorkItem list" where
  "nonRedundant pool [] = []"
| "nonRedundant pool (w # ws) =
     (if unlockedFrame pool w \<and> list_ex (completeFrame pool) ws then nonRedundant pool ws
      else w # nonRedundant pool ws)"

text \<open>
  The new queue after a rendered frame, an event and a second rendered frame were
  queued: the first frame is redundant.
\<close>

definition exRedundant :: DisplayQueue where
  "exRedundant = last (run [OpQueueFrame [exLayer] 0 (exId 1) 0 True, OpQueueEvent (Event_new 7),
                            OpQueueFrame [exLayer] 0 (exId 2) 0 True] exFresh)"

definition exRedundantDropped :: DisplayQueue where
  "exRedundantDropped = projr (doDropRedundantFrames exRedundant)"

text \<open>
  Every display-queue frame that was in the ring of \<open>s\<close> and not locked for display is
  marked invalid in \<open>s'\<close>.
\<close>

definition framesInvalidated :: "DisplayQueue \<Rightarrow> DisplayQueue \<Rightarrow> bool" where
  "framesInvalidated s s' \<longleftrightarrow>
     (\<forall>f. WORK_ITEM_FRAME f \<in> set (mpWorkQueue s) \<and> f < length (maFrames s)
            \<and> \<not> mbLockedForDisplay (maFrames s ! f) \<and> mType (maFrames s ! f) = eFT_DISPLAY_QUEUE
          \<longrightarrow> \<not> mbValid (maFrames s' ! f))"

definition exFlushed :: DisplayQueue where
  "exFlushed = projr (the (flush 7 0 10 exOneFrame))"

text \<open>
  What an intrusive ring is by construction: it links each pool frame at most once, a
  frame it links is a frame of the pool, and a pool frame has its links set exactly
  when it is in the ring.
\<close>

definition ringLinked :: "DisplayQueue \<Rightarrow> bool" where
  "ringLinked s \<longleftrightarrow>
     distinct (filter isFrame (mpWorkQueue s))
     \<and> (\<forall>f. WORK_ITEM_FRAME f \<in> set (mpWorkQueue s) \<longrightarrow> f < length (maFrames s))
     \<and> (\<forall>f < length (maFrames s). mbQueued (maFrames s ! f) \<longleftrightarrow> WORK_ITEM_FRAME f \<in> set (mpWorkQueue s))"

text \<open>The part of the state that \<open>ringLinked\<close> reads.\<close>

definition linkShape :: "DisplayQueue \<Rightarrow> WorkItem list \<times> bool list" where
  "linkShape s = (filter isFrame (mpWorkQueue s), map mbQueued (maFrames s))"

text \<open>
  The pool accounting with a frame that is both linked and locked counted once: the
  worker locks the head frame before it waits for its rendering, and the frame stays
  in the ring until the wait is over. \<open>unlockedQueued\<close> counts the linked frames that
  are not locked, \<open>lockedQueued\<close> is the set of those that are.
\<close>

definition unlockedQueued :: "DisplayQueue \<Rightarrow> nat" where
  "unlockedQueued s = length (filter (unlockedFrame (maFrames s)) (mpWorkQueue s))"

definition lockedQueued :: "DisplayQueue \<Rightarrow> nat set" where
  "lockedQueued s = {f. WORK_ITEM_FRAME f \<in> set (mpWorkQueue s) \<and> mbLockedForDisplay (maFrames s ! f)}"

definition poolCounted :: "DisplayQueue \<Rightarrow> bool" where
  "poolCounted s \<longleftrightarrow> mFramePoolUsed s = of_nat (unlockedQueued s) + mFramesLockedForDisplay s"

definition poolTyped :: "DisplayQueue \<Rightarrow> bool" where
  "poolTyped s \<longleftrightarrow> (\<forall>f < length (maFrames s). mType (maFrames s ! f) = eFT_DISPLAY_QUEUE)"

definition poolCore :: "DisplayQueue \<Rightarrow> bool" where
  "poolCore s \<longleftrightarrow> ringLinked s \<and> poolTyped s \<and> poolCounted s"

text \<open>A frame is linked and locked only while the worker waits for its rendering.\<close>

definition lockedWaiting :: "DisplayQueue \<Rightarrow> bool" where
  "lockedWaiting s \<longleftrightarrow> (\<forall>f \<in> lockedQueued s. mPhase s = PhaseWaitRendering f)"

definition poolInv :: "DisplayQueue \<Rightarrow> bool" where
  "poolInv s \<longleftrightarrow> poolCore s \<and> lockedWaiting s"

text \<open>The part of the state that the accounting reads besides the links.\<close>

definition acctShape ::
  "DisplayQueue \<Rightarrow> (WorkItem list \<times> bool list) \<times> bool list \<times> EFrameType list \<times> 32 word \<times> 32 word \<times> ConsumePhase" where
  "acctShape s = (linkShape s, map mbLockedForDisplay (maFrames s), map mType (maFrames s),
                  mFramePoolUsed s, mFramesLockedForDisplay s, mPhase s)"

text \<open>
  What the sections of the producers and of the backend do to the accounting: they
  leave the worker where it stands, keep \<open>poolCore\<close> and lock no linked frame.
\<close>

definition keeps :: "DisplayQueue \<Rightarrow> DisplayQueue \<Rightarrow> bool" where
  "keeps s s' \<longleftrightarrow> mPhase s' = mPhase s
     \<and> (poolCore s \<longrightarrow> poolCore s' \<and> lockedQueued s' \<subseteq> lockedQueued s)"

text \<open>
  The operations the accounting is shown for: a \<^verbatim>\<open>queueFrame\<close> whose layer allocation
  succeeds, and a \<^verbatim>\<open>releaseFrame\<close> of a frame that is out of the ring, as the frames
  handed to the backend are.
\<close>

definition regularOp :: "Operation \<Rightarrow> DisplayQueue \<Rightarrow> bool" where
  "regularOp op s = (case op of
       OpQueueFrame stack zorder id' config allocOk \<Rightarrow> allocOk
     | OpReleaseFrame f \<Rightarrow> \<not> mbQueued (maFrames s ! f)
     | _ \<Rightarrow> True)"

fun regularRun :: "Operation list \<Rightarrow> DisplayQueue \<Rightarrow> bool" where
  "regularRun [] s = True"
| "regularRun (op # ops) s =
     (regularOp op s \<and> (case perform op s of Some (Inr s') \<Rightarrow> regularRun ops s' | _ \<Rightarrow> True))"

text \<open>
  A drop in the window of a flip: a frame is queued, the worker takes it off the ring and
  releases the lock for the backend's \<^verbatim>\<open>consumeWork( pFrame )\<close>, and the producer calls
  \<^verbatim>\<open>queueDrop\<close> before the worker takes the lock again.
\<close>

definition exRaceOps :: "Operation list" where
  "exRaceOps = [OpQueueFrame [exLayer] 0 (exId 1) 0 True, OpConsumeWork, OpQueueDrop (exId 2)]"

definition exDropInFlip :: DisplayQueue where
  "exDropInFlip = last (run exRaceOps exFresh)"

text \<open>The events of a ring, from the head.\<close>

fun eventsOf :: "WorkItem list \<Rightarrow> Event list" where
  "eventsOf [] = []"
| "eventsOf (WORK_ITEM_FRAME f # ws) = eventsOf ws"
| "eventsOf (WORK_ITEM_EVENT e # ws) = e # eventsOf ws"

text \<open>
  The events of the ring after an operation, as the amended C8 has them: \<^verbatim>\<open>queueEvent\<close>
  appends the event, stamped with \<open>mLastQueuedFrame\<close>; \<^verbatim>\<open>queueDrop\<close> stamps the event that
  is the tail of the ring with its id; the section of \<^verbatim>\<open>consumeWork\<close> that follows the
  backend's \<^verbatim>\<open>consumeWork( pEvent )\<close> takes the head event off; nothing else changes them.
\<close>

definition specEvents :: "Operation \<Rightarrow> DisplayQueue \<Rightarrow> Event list" where
  "specEvents op s =
     (let evs = eventsOf (mpWorkQueue s)
      in case op of
           OpQueueEvent e \<Rightarrow> evs @ [e\<lparr>evEffectiveFrame := mLastQueuedFrame s, evQueued := True\<rparr>]
         | OpQueueDrop id' \<Rightarrow>
             (if mpWorkQueue s \<noteq> [] \<and> \<not> isFrame (last (mpWorkQueue s))
              then butlast evs @ [(last evs)\<lparr>evEffectiveFrame := id'\<rparr>] else evs)
         | OpConsumeWork \<Rightarrow> (if mPhase s = PhaseEventIssued then tl evs else evs)
         | _ \<Rightarrow> evs)"

text \<open>
  A frame, an event behind it, a drop while the event is the tail, a second frame; then
  the worker consumes the first frame and the event, the backend releasing the frame.
\<close>

definition exDropOps :: "Operation list" where
  "exDropOps = [OpQueueFrame [exLayer] 0 (exId 5) 0 True, OpQueueEvent (Event_new 42),
                OpQueueDrop (exId 9), OpQueueFrame [exLayer] 0 (exId 10) 0 True,
                OpConsumeWork, OpConsumeWork, OpReleaseFrame 0,
                OpConsumeWork, OpConsumeWork]"

section \<open>Properties\<close>

subsection \<open>Results and assertions\<close>

lemma bindE_Inr [simp]: "bindE (Inr x) f = f x"
  by (simp add: bindE_def)

lemma bindE_Inl [simp]: "bindE (Inl e) f = Inl e"
  by (simp add: bindE_def)

lemma bindE_eq_Inr: "bindE m f = Inr y \<longleftrightarrow> (\<exists>x. m = Inr x \<and> f x = Inr y)"
  by (cases m) simp_all

lemma HWCASSERT_eq_Inr [simp]: "HWCASSERT b = Inr u \<longleftrightarrow> b"
  by (simp add: HWCASSERT_def)

lemma HWCASSERT_True [simp]: "HWCASSERT True = Inr ()"
  by (simp add: HWCASSERT_def)

lemma HWCASSERT_False [simp]: "HWCASSERT False = Inl AssertFailed"
  by (simp add: HWCASSERT_def)

lemma validateFutureFrame_eq_Inr [simp]: "validateFutureFrame a b = Inr u \<longleftrightarrow> futureFrameOk a b"
  by (simp add: validateFutureFrame_def)

subsection \<open>Frames and their layers\<close>

lemma Frame_wf_new: "Frame_wf Frame_new"
  by (simp add: Frame_wf_def Frame_new_def)

lemma length_setLayers: "setLayers fls ls = Inr fls' \<Longrightarrow> length fls' = length fls"
  by (induction fls ls arbitrary: fls' rule: setLayers.induct) (auto simp: bindE_eq_Inr)

lemma Frame_wf_set:
  assumes "Frame_wf f" and "Frame_set stack zorder i config allocOk f = Inr (ok, f')"
  shows "Frame_wf f'"
  using assms
  by (auto simp: Frame_set_def Frame_wf_def bindE_eq_Inr Let_def cMinimumLayerAllocCount_def
      dest!: length_setLayers split: if_splits)

lemma Frame_wf_reset: "Frame_wf f \<Longrightarrow> Frame_wf (Frame_reset b f)"
  by (simp add: Frame_wf_def Frame_reset_def)

lemma Frame_wf_invalidate: "Frame_wf f \<Longrightarrow> Frame_wf (Frame_invalidate f)"
  by (simp add: Frame_wf_def Frame_invalidate_def)

lemma exFrame2_eq:
  "Frame_set [exLayer, exLayer] 0 (exId 1) 0 True Frame_new = Inr (True, exFrame2)"
  by (simp add: exFrame2_def Frame_set_def Frame_new_def cMinimumLayerAllocCount_def Let_def
      FrameLayer_set_def FrameLayer_new_def eval_nat_numeral)

text \<open>
  C9. \<^verbatim>\<open>Frame::getLayer\<close> is \<^verbatim>\<open>Frame::editLayer\<close>, a total function of the frame and the
  index. It returns \<^verbatim>\<open>NULL\<close> exactly when \<open>mLayerCount\<close> is zero or the index is not below
  \<open>mLayerCount\<close>; a pointer it returns addresses the layer of that index, the index is
  below \<open>mLayerCount\<close>, and in a frame whose array is as long as its allocation count
  says, which \<^verbatim>\<open>Frame::Frame\<close> establishes and \<^verbatim>\<open>Frame::set\<close> and \<^verbatim>\<open>Frame::reset\<close> keep
  (\<open>Frame_wf_new\<close>, \<open>Frame_wf_set\<close>, \<open>Frame_wf_reset\<close>), it lies inside the array.
\<close>

theorem C9_editLayer_in_bounds:
  "Frame_getLayer f ly = Frame_editLayer f ly
   \<and> (Frame_editLayer f ly = None \<longleftrightarrow> mLayerCount f = 0 \<or> mLayerCount f \<le> unat ly)
   \<and> (Frame_editLayer f ly = Some p \<longrightarrow> p = unat ly \<and> unat ly < mLayerCount f)
   \<and> (Frame_wf f \<and> Frame_editLayer f ly = Some p \<longrightarrow> p < length (maLayers f))"
  by (auto simp: Frame_getLayer_def Frame_editLayer_def Frame_wf_def)

theorem C9_editLayer_in_bounds_witness:
  "Frame_wf exFrame2 \<and> Frame_editLayer exFrame2 1 = Some 1 \<and> 1 < length (maLayers exFrame2)
   \<and> Frame_getLayer exFrame2 2 = None"
proof -
  have wf: "Frame_wf exFrame2"
    using Frame_wf_set [OF Frame_wf_new exFrame2_eq] .
  have cnt: "mLayerCount exFrame2 = 2"
    by (simp add: exFrame2_def Frame_set_def Frame_new_def cMinimumLayerAllocCount_def Let_def
        FrameLayer_set_def FrameLayer_new_def eval_nat_numeral)
  have e1: "Frame_editLayer exFrame2 1 = Some 1"
    by (simp add: Frame_editLayer_def cnt)
  show ?thesis
    using wf e1 cnt C9_editLayer_in_bounds [of exFrame2 1 1] C9_editLayer_in_bounds [of exFrame2 2 0]
    by simp
qed

subsection \<open>Fields that an operation leaves alone\<close>

lemma effect_fields [simp]:
  "mpWorkQueue (effect e s) = mpWorkQueue s"
  "maFrames (effect e s) = maFrames s"
  "mLastQueuedFrame (effect e s) = mLastQueuedFrame s"
  "mLastIssuedFrame (effect e s) = mLastIssuedFrame s"
  "mLastDroppedFrame (effect e s) = mLastDroppedFrame s"
  "mQueuedWork (effect e s) = mQueuedWork s"
  "mQueuedFrames (effect e s) = mQueuedFrames s"
  "mFramesLockedForDisplay (effect e s) = mFramesLockedForDisplay s"
  "mFramePoolUsed (effect e s) = mFramePoolUsed s"
  "mConsumedWork (effect e s) = mConsumedWork s"
  "mbConsumerBlocked (effect e s) = mbConsumerBlocked s"
  "mpWorker (effect e s) = mpWorker s"
  "mPhase (effect e s) = mPhase s"
  "mBehaviourFlags (effect e s) = mBehaviourFlags s"
  "mFramePoolLimit (effect e s) = mFramePoolLimit s"
  "mEffects (effect e s) = mEffects s @ [e]"
  by (simp_all add: effect_def)

lemma updFrame_fields [simp]:
  "mpWorkQueue (updFrame f g s) = mpWorkQueue s"
  "maFrames (updFrame f g s) = (maFrames s)[f := g (maFrames s ! f)]"
  "mLastQueuedFrame (updFrame f g s) = mLastQueuedFrame s"
  "mLastIssuedFrame (updFrame f g s) = mLastIssuedFrame s"
  "mLastDroppedFrame (updFrame f g s) = mLastDroppedFrame s"
  "mQueuedWork (updFrame f g s) = mQueuedWork s"
  "mQueuedFrames (updFrame f g s) = mQueuedFrames s"
  "mFramesLockedForDisplay (updFrame f g s) = mFramesLockedForDisplay s"
  "mFramePoolUsed (updFrame f g s) = mFramePoolUsed s"
  "mConsumedWork (updFrame f g s) = mConsumedWork s"
  "mbConsumerBlocked (updFrame f g s) = mbConsumerBlocked s"
  "mpWorker (updFrame f g s) = mpWorker s"
  "mPhase (updFrame f g s) = mPhase s"
  "mBehaviourFlags (updFrame f g s) = mBehaviourFlags s"
  "mFramePoolLimit (updFrame f g s) = mFramePoolLimit s"
  "mEffects (updFrame f g s) = mEffects s"
  by (simp_all add: updFrame_def)

lemma sameIds_refl [simp]: "sameIds s s"
  by (simp add: sameIds_def)

lemma sameIds_trans: "sameIds s s1 \<Longrightarrow> sameIds s1 s2 \<Longrightarrow> sameIds s s2"
  by (simp add: sameIds_def)

lemma WorkItem_dequeue_ids: "WorkItem_dequeue w s = Inr s' \<Longrightarrow> sameIds s s'"
  by (auto simp: WorkItem_dequeue_def bindE_eq_Inr sameIds_def Let_def split: WorkItem.splits)

lemma WorkItem_queue_ids: "WorkItem_queue w s = Inr s' \<Longrightarrow> sameIds s s'"
  by (auto simp: WorkItem_queue_def bindE_eq_Inr sameIds_def Let_def split: WorkItem.splits)

lemma dropFrame_ids: "dropFrame f s = Inr s' \<Longrightarrow> sameIds s s'"
  by (auto simp: dropFrame_def bindE_eq_Inr sameIds_def dest!: WorkItem_dequeue_ids)

lemma dropRedundantLoop_ids: "dropRedundantLoop ws b s = Inr s' \<Longrightarrow> sameIds s s'"
proof (induction ws b s rule: dropRedundantLoop.induct)
  case (3 f ws b s)
  then show ?case
    by (auto simp: bindE_eq_Inr split: if_splits dest!: dropFrame_ids intro: sameIds_trans)
qed simp_all

lemma doDropRedundantFrames_ids: "doDropRedundantFrames s = Inr s' \<Longrightarrow> sameIds s s'"
  by (auto simp: doDropRedundantFrames_def split: if_splits dest: dropRedundantLoop_ids)

lemma dropAllLoop_ids: "dropAllLoop ws s = Inr s' \<Longrightarrow> sameIds s s'"
proof (induction ws s rule: dropAllLoop.induct)
  case (3 f ws s)
  then show ?case
    by (auto simp: bindE_eq_Inr split: if_splits dest!: dropFrame_ids intro: sameIds_trans)
qed simp_all

lemma invalidateLoop_ids: "sameIds s (invalidateLoop ws s)"
proof (induction ws s rule: invalidateLoop.induct)
  case (3 f ws s)
  then show ?case
    by (auto simp: sameIds_def)
qed simp_all

lemma limitUsedFrames_ids: "limitUsedFrames s = Inr s' \<Longrightarrow> sameIds s s'"
  by (auto simp: limitUsedFrames_def bindE_eq_Inr dest: doDropRedundantFrames_ids)

lemma findFree_ids: "findFree s = Inr (p, s') \<Longrightarrow> sameIds s s'"
  by (auto simp: findFree_def bindE_eq_Inr split: sum.splits option.splits dest: dropFrame_ids)

subsection \<open>queueFrame\<close>

text \<open>
  C10. When \<^verbatim>\<open>queueFrame\<close> returns an error, because \<^verbatim>\<open>findFree\<close> gave no frame or
  because \<^verbatim>\<open>Frame::set\<close> failed, \<open>mLastQueuedFrame\<close> is what it was before the call.
\<close>

theorem C10_queueFrame_error_keeps_lastQueuedFrame:
  assumes "queueFrame stack zorder id' config allocOk s = Inr (r, s')" and "r \<noteq> OK"
  shows "mLastQueuedFrame s' = mLastQueuedFrame s"
proof -
  from assms(1) obtain s1 pNew s2 where
    lim: "limitUsedFrames s = Inr s1" and ff: "findFree s1 = Inr (pNew, s2)" and
    rest: "(case pNew of None \<Rightarrow> Inr (- ENOSYS, s2)
            | Some f \<Rightarrow> bindE (HWCASSERT (mType (maFrames s2 ! f) = eFT_DISPLAY_QUEUE)) (\<lambda>_.
             let s = s2\<lparr>mFramePoolUsed := mFramePoolUsed s2 + 1\<rparr>;
                 s = (if mFramePoolUsed s > mFramePoolPeak s
                      then s\<lparr>mFramePoolPeak := mFramePoolUsed s\<rparr> else s)
             in bindE (Frame_set stack zorder id' config allocOk (maFrames s ! f)) (\<lambda>(ok, fr).
                  let s = updFrame f (\<lambda>_. fr) s
                  in if \<not> ok then Inr (- ENOSYS, s)
                     else
                       let s = updFrame f (\<lambda>fr. fr\<lparr>mEffectiveFrame := id'\<rparr>) s;
                           s = s\<lparr>mLastQueuedFrame := id'\<rparr>
                       in bindE (doQueueWork (WORK_ITEM_FRAME f) s) (\<lambda>s. Inr (OK, s))))) = Inr (r, s')"
    by (auto simp: queueFrame_def bindE_eq_Inr)
  have ids: "sameIds s s2"
    using limitUsedFrames_ids [OF lim] findFree_ids [OF ff] by (rule sameIds_trans)
  show ?thesis
  proof (cases pNew)
    case None
    with rest ids show ?thesis by (simp add: sameIds_def)
  next
    case (Some f)
    with rest assms(2) ids show ?thesis
      by (auto simp: bindE_eq_Inr Let_def sameIds_def split: if_splits)
  qed
qed

theorem C10_queueFrame_error_keeps_lastQueuedFrame_witness:
  "exAllocFail = Inr (- ENOSYS, snd (projr exAllocFail)) \<and> - ENOSYS \<noteq> OK
   \<and> mLastQueuedFrame (snd (projr exAllocFail)) = mLastQueuedFrame exFresh"
proof -
  have e: "queueFrame [exLayer] 0 (exId 1) 0 False exFresh = Inr (- ENOSYS, snd (projr exAllocFail))"
    by code_simp
  have n: "- ENOSYS \<noteq> OK"
    by (simp add: ENOSYS_def OK_def)
  show ?thesis
    using e n C10_queueFrame_error_keeps_lastQueuedFrame [OF e n] by (simp add: exAllocFail_def)
qed

text \<open>
  C1. The pool accounting holds in a new queue. \<^verbatim>\<open>queueFrame\<close> increments
  \<open>mFramePoolUsed\<close> before \<^verbatim>\<open>Frame::set\<close>; when \<^verbatim>\<open>Frame::set\<close> fails it returns
  \<^verbatim>\<open>-ENOSYS\<close> with the counter at 1, no frame in the ring and no frame locked for
  display: the accounting does not hold when \<^verbatim>\<open>queueFrame\<close> returns this error.
\<close>

theorem C1_queueFrame_error_leaks_pool_count:
  "poolAccounted exFresh
   \<and> map_sum id (\<lambda>(r, s). (r, mFramePoolUsed s, queuedPoolFrames s, mFramesLockedForDisplay s)) exAllocFail
       = Inr (- ENOSYS, 1, 0, 0)
   \<and> \<not> poolAccounted (snd (projr exAllocFail))"
  by code_simp

text \<open>
  C7, as stated, fails: with every pool frame locked for display \<^verbatim>\<open>findFree\<close> yields no
  frame and \<^verbatim>\<open>queueFrame\<close> returns \<^verbatim>\<open>-ENOSYS\<close>; with a free frame whose \<^verbatim>\<open>Frame::set\<close>
  fails to allocate it returns \<^verbatim>\<open>-ENOSYS\<close> as well. The caller sees one code for both.
\<close>

theorem C7_failures_share_return_code:
  "map_sum id fst (findFree exAllLocked) = Inr None
   \<and> map_sum id fst (queueFrame [exLayer] 0 (exId 2) 0 True exAllLocked) = Inr (- ENOSYS)
   \<and> map_sum id fst (findFree exFresh) = Inr (Some 0)
   \<and> map_sum id fst (Frame_set [exLayer] 0 (exId 1) 0 False (maFrames exFresh ! 0)) = Inr False
   \<and> map_sum id fst (queueFrame [exLayer] 0 (exId 1) 0 False exFresh) = Inr (- ENOSYS)"
  by code_simp

text \<open>
  C7, amended. When \<^verbatim>\<open>queueFrame\<close> returns, with \<^verbatim>\<open>findFree\<close> called on the state that
  \<^verbatim>\<open>limitUsedFrames\<close> leaves: if \<^verbatim>\<open>findFree\<close> yields no frame the result is \<^verbatim>\<open>-ENOSYS\<close>; if
  it yields a frame, the result is \<^verbatim>\<open>OK\<close> when \<^verbatim>\<open>Frame::set\<close> succeeds on that frame and
  \<^verbatim>\<open>-ENOSYS\<close>, the same code, when it fails.
\<close>

theorem C7_queueFrame_return_codes:
  assumes "limitUsedFrames s = Inr s1" and "findFree s1 = Inr (pNew, s2)"
    and "queueFrame stack zorder id' config allocOk s = Inr (r, s')"
  shows "(pNew = None \<longrightarrow> r = - ENOSYS)
     \<and> (\<forall>f ok fr. pNew = Some f \<and> Frame_set stack zorder id' config allocOk (maFrames s2 ! f) = Inr (ok, fr)
          \<longrightarrow> r = (if ok then OK else - ENOSYS))"
  using assms(3)
  by (auto simp: queueFrame_def assms(1,2) bindE_eq_Inr Let_def split: option.splits if_splits)

theorem C7_queueFrame_return_codes_witness:
  "limitUsedFrames exFresh = Inr exFresh \<and> findFree exFresh = Inr (Some 0, exFresh)
   \<and> Frame_set [exLayer] 0 (exId 1) 0 False (maFrames exFresh ! 0)
       = Inr (False, snd (projr (Frame_set [exLayer] 0 (exId 1) 0 False (maFrames exFresh ! 0))))
   \<and> exAllocFail = Inr (projr exAllocFail) \<and> fst (projr exAllocFail) = - ENOSYS"
proof -
  have l: "limitUsedFrames exFresh = Inr exFresh"
    by code_simp
  have f: "findFree exFresh = Inr (Some 0, exFresh)"
    by code_simp
  have st: "Frame_set [exLayer] 0 (exId 1) 0 False (maFrames exFresh ! 0)
      = Inr (False, snd (projr (Frame_set [exLayer] 0 (exId 1) 0 False (maFrames exFresh ! 0))))"
    by code_simp
  have q: "queueFrame [exLayer] 0 (exId 1) 0 False exFresh
      = Inr (fst (projr exAllocFail), snd (projr exAllocFail))"
    by code_simp
  have "fst (projr exAllocFail) = (if False then OK else - ENOSYS)"
    using C7_queueFrame_return_codes [OF l f q] st by blast
  with l f st q show ?thesis
    by (simp add: exAllocFail_def)
qed

subsection \<open>The tracking ids across the remaining functions\<close>

lemma futureFrameOk_refl [simp]: "futureFrameOk a a"
  by (simp add: futureFrameOk_def)

lemma signalWork_ids: "signalWork s = Inr s' \<Longrightarrow> sameIds s s'"
  by (auto simp: signalWork_def Worker_signalWork_def bindE_eq_Inr sameIds_def split: option.splits)

lemma startWorker_ids: "sameIds s (startWorker s)"
  by (simp add: startWorker_def sameIds_def)

lemma doQueueWork_ids: "doQueueWork w s = Inr s' \<Longrightarrow> sameIds s s'"
  by (auto simp: doQueueWork_def bindE_eq_Inr Let_def sameIds_def startWorker_def
      split: if_splits dest!: WorkItem_queue_ids signalWork_ids)

lemma doInvalidateFrames_ids: "doInvalidateFrames s = Inr s' \<Longrightarrow> sameIds s s'"
  by (auto simp: doInvalidateFrames_def bindE_eq_Inr Let_def invalidateLoop_ids)

lemma dropAllFrames_ids: "dropAllFrames s = Inr s' \<Longrightarrow> sameIds s s'"
  by (auto simp: dropAllFrames_def bindE_eq_Inr dest: dropAllLoop_ids)

lemma doReleaseFrame_ids: "doReleaseFrame f s = Inr s' \<Longrightarrow> sameIds s s'"
  by (auto simp: doReleaseFrame_def bindE_eq_Inr Let_def sameIds_def)

lemma lockFrameForDisplay_ids: "sameIds s (lockFrameForDisplay f s)"
  by (simp add: lockFrameForDisplay_def sameIds_def)

lemma unlockFrameForDisplay_ids: "sameIds s (unlockFrameForDisplay f s)"
  by (simp add: unlockFrameForDisplay_def sameIds_def)

lemma signalWork_flushWaitCond:
  "signalWork s = Inr s' \<Longrightarrow> flushWaitCond m c i s' = flushWaitCond m c i s"
  by (auto simp: signalWork_def Worker_signalWork_def bindE_eq_Inr flushWaitCond_def split: option.splits)

lemma signalWork_again: "signalWork s = Inr s' \<Longrightarrow> \<exists>s''. signalWork s' = Inr s''"
  by (auto simp: signalWork_def Worker_signalWork_def bindE_eq_Inr effect_def split: option.splits)

lemma doFlushLoop_Some:
  "doFlushLoop m c i s = Some y \<Longrightarrow>
     (if flushWaitCond m c i s then \<exists>e. signalWork s = Inl e \<and> y = Inl e else y = Inr s)"
proof (induction rule: doFlushLoop.raw_induct [rotated 1, consumes 1])
  case (1 loop m c i s y)
  show ?case
  proof (cases "flushWaitCond m c i s")
    case False
    with 1(2) show ?thesis by simp
  next
    case True
    show ?thesis
    proof (cases "signalWork s")
      case (Inl e)
      with True 1(2) show ?thesis by auto
    next
      case (Inr s')
      with True 1(2) have "loop m c i s' = Some y" by simp
      from 1(1) [OF this] signalWork_flushWaitCond [OF Inr] True signalWork_again [OF Inr]
      show ?thesis by auto
    qed
  qed
qed

lemma doFlushLoop_eq:
  "doFlushLoop m c i s =
     (if flushWaitCond m c i s
      then (case signalWork s of Inl e \<Rightarrow> Some (Inl e) | Inr s' \<Rightarrow> None)
      else Some (Inr s))"
proof (cases "doFlushLoop m c i s")
  case None
  then have "flushWaitCond m c i s \<and> (\<exists>s'. signalWork s = Inr s')"
    by (subst (asm) doFlushLoop.simps) (auto split: if_splits sum.splits)
  with None show ?thesis
    by auto
next
  case (Some y)
  from doFlushLoop_Some [OF this] Some show ?thesis
    by (auto split: if_splits)
qed

lemma doFlushLoop_ids: "doFlushLoop m c i s = Some (Inr s') \<Longrightarrow> sameIds s s'"
  by (auto simp: doFlushLoop_eq split: if_splits sum.splits)

lemma doFlush_ids: "doFlush i t s = Some (Inr (b, s')) \<Longrightarrow> sameIds s s'"
  by (auto simp: doFlush_def sameIds_def split: if_splits option.splits sum.splits dest!: doFlushLoop_ids)

lemma flush_ids: "flush tid i t s = Some (Inr s') \<Longrightarrow> sameIds s s'"
  by (auto simp: flush_def flush_bFlushed_def split: if_splits option.splits sum.splits
      dest!: doFlush_ids doInvalidateFrames_ids intro: sameIds_trans)

lemma flush_returns: "\<exists>r. flush tid i t s = Some r"
  by (auto simp: flush_def flush_bFlushed_def doFlush_def getWorkerTid_def Worker_getId_def
      split: option.splits sum.splits)

subsection \<open>The issued frame\<close>

lemma doAdvanceIssuedFrame_mono:
  "doAdvanceIssuedFrame i s = Inr s' \<Longrightarrow>
     mLastIssuedFrame s' = i \<and> futureFrameOk (mLastIssuedFrame s) i \<and> mLastQueuedFrame s' = mLastQueuedFrame s"
  by (auto simp: doAdvanceIssuedFrame_def bindE_eq_Inr)

lemma queueDrop_issued:
  "queueDrop i s = Inr s' \<Longrightarrow> futureFrameOk (mLastIssuedFrame s) (mLastIssuedFrame s')"
  by (auto simp: queueDrop_def bindE_eq_Inr Let_def setEffectiveFrameLast_def
      split: if_splits WorkItem.splits dest!: doAdvanceIssuedFrame_mono)

lemma queueEvent_issued:
  "queueEvent e s = Inr (r, s') \<Longrightarrow> mLastIssuedFrame s' = mLastIssuedFrame s"
  by (auto simp: queueEvent_def bindE_eq_Inr sameIds_def dest!: doQueueWork_ids)

lemma queueFrame_issued:
  assumes "queueFrame stack zorder i config allocOk s = Inr (r, s')"
  shows "mLastIssuedFrame s' = mLastIssuedFrame s"
proof -
  from assms obtain s1 pNew s2 where
    lim: "limitUsedFrames s = Inr s1" and ff: "findFree s1 = Inr (pNew, s2)"
    by (auto simp: queueFrame_def bindE_eq_Inr)
  have ids: "sameIds s s2"
    using limitUsedFrames_ids [OF lim] findFree_ids [OF ff] by (rule sameIds_trans)
  from assms ids show ?thesis
    by (auto simp: queueFrame_def lim ff bindE_eq_Inr Let_def sameIds_def
        split: option.splits if_splits dest!: doQueueWork_ids)
qed

lemma doConsumeFrame_flip_ids: "doConsumeFrame_flip f s = Inr s' \<Longrightarrow> sameIds s s'"
  by (auto simp: doConsumeFrame_flip_def bindE_eq_Inr Let_def sameIds_def dest!: WorkItem_dequeue_ids)

lemma doConsumeFrame_start_ids: "doConsumeFrame_start f s = Inr s' \<Longrightarrow> sameIds s s'"
  by (auto simp: doConsumeFrame_start_def bindE_eq_Inr Let_def sameIds_def lockFrameForDisplay_def
      split: if_splits dest!: doConsumeFrame_flip_ids)

lemma doConsumeEvent_issue_ids: "doConsumeEvent_issue e s = Inr s' \<Longrightarrow> sameIds s s'"
  by (auto simp: doConsumeEvent_issue_def bindE_eq_Inr sameIds_def)

lemma doConsumeWork_start_ids: "doConsumeWork_start s = Inr s' \<Longrightarrow> sameIds s s'"
  by (auto simp: doConsumeWork_start_def bindE_eq_Inr split: list.splits WorkItem.splits
      dest: doConsumeFrame_start_ids doConsumeEvent_issue_ids)

lemma doConsumeFrame_synced_ids:
  assumes "doConsumeFrame_synced f s = Inr s'"
  shows "sameIds s s'"
proof -
  from assms obtain s1 where
    d: "doDropRedundantFrames (unlockFrameForDisplay f s) = Inr s1" and
    rest: "(case mpWorkQueue s1 of
         WORK_ITEM_FRAME pFrame # ws \<Rightarrow>
           let s = lockFrameForDisplay pFrame s1
           in bindE (HWCASSERT (mType (maFrames s ! pFrame) = eFT_DISPLAY_QUEUE)) (\<lambda>_.
                doConsumeFrame_flip pFrame s)
       | _ \<Rightarrow> Inr (s1\<lparr>mPhase := PhaseIdle\<rparr>)) = Inr s'"
    by (auto simp: doConsumeFrame_synced_def bindE_eq_Inr)
  have s1: "sameIds s s1"
    using unlockFrameForDisplay_ids doDropRedundantFrames_ids [OF d] by (rule sameIds_trans)
  have "sameIds s1 s'"
    using rest
    by (auto simp: bindE_eq_Inr Let_def split: list.splits WorkItem.splits
        dest!: doConsumeFrame_flip_ids intro: sameIds_trans [OF lockFrameForDisplay_ids])
      (simp_all add: sameIds_def)
  with s1 show ?thesis
    by (rule sameIds_trans)
qed

lemma doConsumeEvent_retire_issued:
  "doConsumeEvent_retire s = Inr s' \<Longrightarrow> futureFrameOk (mLastIssuedFrame s) (mLastIssuedFrame s')"
  by (auto simp: doConsumeEvent_retire_def bindE_eq_Inr Let_def sameIds_def
      split: list.splits WorkItem.splits dest!: WorkItem_dequeue_ids doAdvanceIssuedFrame_mono)

lemma doConsumeFrame_retire_issued:
  "doConsumeFrame_retire i s = Inr s' \<Longrightarrow> futureFrameOk (mLastIssuedFrame s) (mLastIssuedFrame s')"
  by (auto simp: doConsumeFrame_retire_def bindE_eq_Inr dest!: doAdvanceIssuedFrame_mono)

lemma consumeWork_section_issued:
  "consumeWork_section s = Inr s' \<Longrightarrow> futureFrameOk (mLastIssuedFrame s) (mLastIssuedFrame s')"
  by (auto simp: consumeWork_section_def sameIds_def split: ConsumePhase.splits
      dest: doConsumeWork_start_ids doConsumeFrame_synced_ids doConsumeEvent_retire_issued
        doConsumeFrame_retire_issued)

lemma perform_issued:
  assumes "perform op s = Some (Inr s')"
  shows "futureFrameOk (mLastIssuedFrame s) (mLastIssuedFrame s')"
proof (cases op)
  case (OpQueueEvent e)
  with assms show ?thesis
    by (auto simp: perform_def bindE_eq_Inr dest!: queueEvent_issued)
next
  case (OpQueueFrame stack zorder i config allocOk)
  with assms show ?thesis
    by (auto simp: perform_def bindE_eq_Inr dest!: queueFrame_issued)
next
  case (OpFlush tid i t)
  with assms flush_ids [of tid i t s s'] show ?thesis
    by (simp add: perform_def sameIds_def)
qed (use assms in \<open>auto simp: perform_def init_def consumerBlocked_def consumerUnblocked_def
      notifyReady_def releaseFrame_def dropRedundantFrames_def sameIds_def bindE_eq_Inr
      split: if_splits
      dest: queueDrop_issued dropAllFrames_ids doDropRedundantFrames_ids consumeWork_section_issued
        signalWork_ids doReleaseFrame_ids\<close>)

lemma run_starts: "\<exists>ts. run ops s = s # ts"
  by (cases ops) (auto split: option.splits sum.splits)

text \<open>
  Only \<^verbatim>\<open>doAdvanceIssuedFrame\<close> writes \<open>mLastIssuedFrame\<close>, behind \<^verbatim>\<open>validateFutureFrame\<close>.
  A run ends at the first assertion that fails, so up to there each issued id is at or
  after the one before it: the order of the issued ids rests on that validation alone.
\<close>

lemma run_issued_guarded:
  "successively futureFrameOk (map mLastIssuedFrame (run ops s))"
proof (induction ops arbitrary: s)
  case Nil
  show ?case by simp
next
  case (Cons op ops)
  show ?case
  proof (cases "perform op s")
    case None
    then show ?thesis by simp
  next
    case (Some r)
    show ?thesis
    proof (cases r)
      case (Inl e)
      with Some show ?thesis by simp
    next
      case (Inr s')
      have step: "futureFrameOk (mLastIssuedFrame s) (mLastIssuedFrame s')"
        using Some Inr by (auto intro: perform_issued)
      obtain ts where run: "run ops s' = s' # ts"
        using run_starts by blast
      from Cons.IH [of s'] step run Some Inr show ?thesis
        by simp
    qed
  qed
qed

text \<open>
  C2 fails on the code. A frame with id (1,1) is queued on a new queue and the worker
  consumes it up to the \<^verbatim>\<open>unlock\<close> before the flip: the frame is off the ring, which is
  empty, and its effective frame (1,1) is held in the local \<^verbatim>\<open>effectiveIssuedFrame\<close>. In
  that window \<^verbatim>\<open>queueDrop\<close> of (2,2) finds the ring empty and advances \<open>mLastIssuedFrame\<close>
  to (2,2) at once. When the worker takes the lock again it calls
  \<^verbatim>\<open>doAdvanceIssuedFrame( effectiveIssuedFrame )\<close>, which asks for (1,1), behind (2,2):
  the validation fails there, and the assignment that follows it in the source would
  move \<open>mLastIssuedFrame\<close> back. All three operations before it returned.
\<close>

theorem C2_queueDrop_in_flip_window:
  "length (run exRaceOps exFresh) = 4
   \<and> mpWorkQueue (run exRaceOps exFresh ! 2) = []
   \<and> mPhase (run exRaceOps exFresh ! 2) = PhaseFlipIssued (exId 1)
   \<and> mLastIssuedFrame (run exRaceOps exFresh ! 2) = exId 0
   \<and> mLastIssuedFrame exDropInFlip = exId 2
   \<and> mPhase exDropInFlip = PhaseFlipIssued (exId 1)
   \<and> \<not> futureFrameOk (exId 2) (exId 1)
   \<and> doValidateQueue exDropInFlip = Inr ()
   \<and> doAdvanceIssuedFrame (exId 1) exDropInFlip = Inl AssertFailed
   \<and> consumeWork_section exDropInFlip = Inl AssertFailed
   \<and> perform OpConsumeWork exDropInFlip = Some (Inl AssertFailed)"
  by code_simp

subsection \<open>queueDrop\<close>

lemma setEffectiveFrameLast_props:
  assumes "mpWorkQueue s \<noteq> []"
  shows "mLastIssuedFrame (setEffectiveFrameLast i s) = mLastIssuedFrame s"
    and "mEffects (setEffectiveFrameLast i s) = mEffects s"
    and "mQueuedWork (setEffectiveFrameLast i s) = mQueuedWork s"
    and "length (mpWorkQueue (setEffectiveFrameLast i s)) = length (mpWorkQueue s)"
    and "butlast (mpWorkQueue (setEffectiveFrameLast i s)) = butlast (mpWorkQueue s)"
    and "isFrame (last (mpWorkQueue (setEffectiveFrameLast i s))) = isFrame (last (mpWorkQueue s))"
    and "validItem s (last (mpWorkQueue s)) \<Longrightarrow>
           getEffectiveFrame (setEffectiveFrameLast i s) (last (mpWorkQueue (setEffectiveFrameLast i s))) = i"
  using assms
  by (auto simp: setEffectiveFrameLast_def isFrame_def validItem_def getEffectiveFrame_def
      split: WorkItem.splits)

text \<open>
  C3. When \<^verbatim>\<open>queueDrop( id )\<close> returns, \<open>id\<close> passed the validation against
  \<open>mLastQueuedFrame\<close>, \<open>mLastQueuedFrame\<close> is \<open>id\<close>, and the ring has the items it had:
  the same length, the same items before the last one, the same count \<open>mQueuedWork\<close>.
  If the ring was empty, \<open>mLastIssuedFrame\<close> is \<open>id\<close> and \<^verbatim>\<open>mConditionWorkConsumed\<close> was
  notified. If it was not, \<open>mLastIssuedFrame\<close> is unchanged, nothing was notified, and
  the last item, the same frame or event, has \<open>id\<close> as its effective frame; a last
  item that is a frame is read back from the pool, where every ring of a run from a new
  queue has it (\<open>run_linked\<close>, \<open>ringLinked_tail_valid\<close>).
\<close>

theorem C3_queueDrop:
  assumes "queueDrop id' s = Inr s'"
  shows "futureFrameOk (mLastQueuedFrame s) id'
     \<and> mLastQueuedFrame s' = id'
     \<and> mQueuedWork s' = mQueuedWork s
     \<and> length (mpWorkQueue s') = length (mpWorkQueue s)
     \<and> butlast (mpWorkQueue s') = butlast (mpWorkQueue s)
     \<and> (mpWorkQueue s = [] \<longrightarrow>
          mLastIssuedFrame s' = id' \<and> mEffects s' = mEffects s @ [NotifyWorkConsumed])
     \<and> (mpWorkQueue s \<noteq> [] \<longrightarrow>
          mLastIssuedFrame s' = mLastIssuedFrame s \<and> mEffects s' = mEffects s
          \<and> isFrame (last (mpWorkQueue s')) = isFrame (last (mpWorkQueue s))
          \<and> (validItem s (last (mpWorkQueue s)) \<longrightarrow> getEffectiveFrame s' (last (mpWorkQueue s')) = id'))"
proof (cases "mpWorkQueue s = []")
  case True
  with assms show ?thesis
    by (auto simp: queueDrop_def bindE_eq_Inr Let_def doAdvanceIssuedFrame_def)
next
  case False
  from assms False have s': "s' = (setEffectiveFrameLast id' s)\<lparr>mLastQueuedFrame := id'\<rparr>"
    and v: "futureFrameOk (mLastQueuedFrame s) id'"
    by (auto simp: queueDrop_def bindE_eq_Inr Let_def)
  have g: "getEffectiveFrame (t\<lparr>mLastQueuedFrame := id'\<rparr>) w = getEffectiveFrame t w" for t w
    by (simp add: getEffectiveFrame_def split: WorkItem.splits)
  show ?thesis
    using False v setEffectiveFrameLast_props [OF False, of id']
    by (simp add: s' g)
qed

lemma queueDrop_empty_returns:
  assumes "mpWorkQueue s = []" and "futureFrameOk (mLastQueuedFrame s) id'"
    and "futureFrameOk (mLastIssuedFrame s) id'"
  shows "\<exists>s'. queueDrop id' s = Inr s'"
  using assms
  by (simp add: queueDrop_def doAdvanceIssuedFrame_def doValidateQueue_def Let_def validateFutureFrame_def)

theorem C3_queueDrop_witness:
  "queueDrop (exId 2) exFresh = Inr (projr (queueDrop (exId 2) exFresh))
   \<and> mpWorkQueue exFresh = []
   \<and> mLastIssuedFrame (projr (queueDrop (exId 2) exFresh)) = exId 2
   \<and> queueDrop (exId 2) exOneFrame = Inr (projr (queueDrop (exId 2) exOneFrame))
   \<and> mpWorkQueue exOneFrame = [WORK_ITEM_FRAME 0] \<and> validItem exOneFrame (WORK_ITEM_FRAME 0)
   \<and> mLastIssuedFrame (projr (queueDrop (exId 2) exOneFrame)) = exId 0
   \<and> getEffectiveFrame (projr (queueDrop (exId 2) exOneFrame))
        (last (mpWorkQueue (projr (queueDrop (exId 2) exOneFrame)))) = exId 2"
proof -
  have a: "queueDrop (exId 2) exFresh = Inr (projr (queueDrop (exId 2) exFresh))"
    by code_simp
  have b: "queueDrop (exId 2) exOneFrame = Inr (projr (queueDrop (exId 2) exOneFrame))"
    by code_simp
  have c: "mpWorkQueue exFresh = []" "mpWorkQueue exOneFrame = [WORK_ITEM_FRAME 0]"
    "validItem exOneFrame (WORK_ITEM_FRAME 0)" "mLastIssuedFrame exOneFrame = exId 0"
    by code_simp+
  show ?thesis
    using a b c C3_queueDrop [OF a] C3_queueDrop [OF b] by simp
qed

subsection \<open>findFree\<close>

lemma sint_diff_same_base:
  fixes x y b :: "'a::len word"
  assumes "0 \<le> sint (x - b)" and "0 \<le> sint (y - b)"
  shows "sint (x - y) = sint (x - b) - sint (y - b)"
proof -
  have "x - y = (x - b) - (y - b)"
    by simp
  then have "sint (x - y) = signed_take_bit (LENGTH('a) - 1) (sint (x - b) - sint (y - b))"
    by (simp only: sint_word_diff)
  also have "\<dots> = sint (x - b) - sint (y - b)"
    using assms sint_lt [of "x - b"] sint_lt [of "y - b"]
    by (intro signed_take_bit_int_eq_self) linarith+
  finally show ?thesis .
qed

lemma findFreeLoop_Inl:
  "findFreeLoop pool fs po = Inl f \<Longrightarrow>
     f \<in> set fs \<and> \<not> mbLockedForDisplay (pool ! f) \<and> \<not> mbQueued (pool ! f)"
  by (induction fs arbitrary: po) (auto split: if_splits)

lemma findFreeLoop_Inr:
  "findFreeLoop pool fs po = Inr r \<Longrightarrow>
     \<forall>f \<in> set fs. mbLockedForDisplay (pool ! f) \<or> mbQueued (pool ! f)"
  by (induction fs arbitrary: po) (auto split: if_splits)

lemma findFreeLoop_all_locked:
  "\<forall>f \<in> set fs. mbLockedForDisplay (pool ! f) \<Longrightarrow> findFreeLoop pool fs po = Inr po"
  by (induction fs arbitrary: po) auto

lemma findFreeLoop_None:
  "findFreeLoop pool fs po = Inr None \<Longrightarrow> po = None \<and> (\<forall>f \<in> set fs. mbLockedForDisplay (pool ! f))"
  by (induction fs arbitrary: po) (auto split: if_splits option.splits)

lemma findFreeLoop_Some:
  "findFreeLoop pool fs po = Inr (Some p) \<Longrightarrow>
     po = Some p \<or> (p \<in> set fs \<and> \<not> mbLockedForDisplay (pool ! p) \<and> mbQueued (pool ! p))"
  by (induction fs arbitrary: po) (auto split: if_splits)

lemma findFreeLoop_oldest:
  assumes "findFreeLoop pool fs po = Inr (Some p)"
    and "\<forall>f \<in> set fs. \<not> mbLockedForDisplay (pool ! f) \<longrightarrow> 0 \<le> sint (tlOf pool f - b)"
    and "\<forall>q. po = Some q \<longrightarrow> 0 \<le> sint (tlOf pool q - b)"
  shows "(\<forall>f \<in> set fs. \<not> mbLockedForDisplay (pool ! f) \<longrightarrow> sint (tlOf pool p - b) \<le> sint (tlOf pool f - b))
     \<and> (\<forall>q. po = Some q \<longrightarrow> sint (tlOf pool p - b) \<le> sint (tlOf pool q - b))"
  using assms
proof (induction fs arbitrary: po)
  case Nil
  then show ?case by simp
next
  case (Cons f fs)
  show ?case
  proof (cases "mbLockedForDisplay (pool ! f)")
    case True
    with Cons.prems Cons.IH [of po] show ?thesis by simp
  next
    case False
    with Cons.prems(1) have q: "mbQueued (pool ! f)"
      by (auto split: if_splits)
    from False Cons.prems(2) have kf: "0 \<le> sint (tlOf pool f - b)"
      by simp
    show ?thesis
    proof (cases po)
      case None
      with False q Cons.prems(1) have "findFreeLoop pool fs (Some f) = Inr (Some p)"
        by simp
      from Cons.IH [OF this] Cons.prems(2) kf None False show ?thesis
        by simp
    next
      case (Some q')
      with Cons.prems(3) have kq: "0 \<le> sint (tlOf pool q' - b)"
        by simp
      have cmp: "sint (tlOf pool q' - tlOf pool f) = sint (tlOf pool q' - b) - sint (tlOf pool f - b)"
        using kq kf by (rule sint_diff_same_base)
      show ?thesis
      proof (cases "0 < sint (tlOf pool q' - tlOf pool f)")
        case True
        with False q Some Cons.prems(1) have "findFreeLoop pool fs (Some f) = Inr (Some p)"
          by (simp add: tlOf_def)
        from Cons.IH [OF this] Cons.prems(2) kf Some False True cmp show ?thesis
          by auto
      next
        case nolder: False
        with False q Some Cons.prems(1) have "findFreeLoop pool fs (Some q') = Inr (Some p)"
          by (simp add: tlOf_def)
        from Cons.IH [OF this] Cons.prems(2) kq Some False nolder cmp show ?thesis
          by auto
      qed
    qed
  qed
qed

lemma dropFrame_result:
  assumes "dropFrame f s = Inr s'"
  shows "f < length (maFrames s) \<and> mbQueued (maFrames s ! f) \<and> \<not> mbLockedForDisplay (maFrames s ! f)
     \<and> mType (maFrames s ! f) = eFT_DISPLAY_QUEUE
     \<and> mpWorkQueue s' = remove1 (WORK_ITEM_FRAME f) (mpWorkQueue s)
     \<and> maFrames s' = (maFrames s)[f := Frame_reset True ((maFrames s ! f)\<lparr>mbQueued := False\<rparr>)]
     \<and> mQueuedFrames s' = mQueuedFrames s - 1 \<and> mQueuedWork s' = mQueuedWork s - 1
     \<and> mFramePoolUsed s' = mFramePoolUsed s - 1
     \<and> mFramesLockedForDisplay s' = mFramesLockedForDisplay s
     \<and> mLastDroppedFrame s' = mFrameId (maFrames s ! f)
     \<and> mEffects s' = mEffects s @ [NotifyWorkConsumed]"
  using assms
  by (auto simp: dropFrame_def WorkItem_dequeue_def bindE_eq_Inr Let_def validItem_def isQueued_def)

lemma findFree_all_locked:
  assumes "\<forall>f < mFramePoolCount s. mbLockedForDisplay (maFrames s ! f)"
  shows "findFree s = Inr (None, s)"
  using assms by (simp add: findFree_def mFramePoolCount_def findFreeLoop_all_locked)

lemma findFree_None:
  assumes "findFree s = Inr (None, s')"
  shows "\<forall>f < mFramePoolCount s. mbLockedForDisplay (maFrames s ! f)"
proof -
  from assms have "findFreeLoop (maFrames s) [0 ..< length (maFrames s)] None = Inr None"
    by (auto simp: findFree_def bindE_eq_Inr split: sum.splits option.splits)
  from findFreeLoop_None [OF this] show ?thesis
    by (simp add: mFramePoolCount_def)
qed

lemma findFree_unused:
  assumes "\<exists>f < mFramePoolCount s. \<not> mbLockedForDisplay (maFrames s ! f) \<and> \<not> mbQueued (maFrames s ! f)"
  shows "\<exists>f < mFramePoolCount s. \<not> mbLockedForDisplay (maFrames s ! f) \<and> \<not> mbQueued (maFrames s ! f)
           \<and> findFree s = Inr (Some f, s)"
proof -
  from assms obtain g where g: "findFreeLoop (maFrames s) [0 ..< length (maFrames s)] None = Inl g"
    using findFreeLoop_Inr [of "maFrames s" "[0 ..< length (maFrames s)]" None]
    by (cases "findFreeLoop (maFrames s) [0 ..< length (maFrames s)] None")
      (auto simp: mFramePoolCount_def)
  from findFreeLoop_Inl [OF g] g show ?thesis
    by (auto simp: findFree_def mFramePoolCount_def)
qed

lemma findFree_oldest:
  assumes all: "\<forall>f < mFramePoolCount s. mbLockedForDisplay (maFrames s ! f) \<or> mbQueued (maFrames s ! f)"
    and ff: "findFree s = Inr (Some p, s')"
  shows "p < mFramePoolCount s \<and> \<not> mbLockedForDisplay (maFrames s ! p) \<and> mbQueued (maFrames s ! p)
        \<and> dropFrame p s = Inr s'
        \<and> mpWorkQueue s' = remove1 (WORK_ITEM_FRAME p) (mpWorkQueue s)
        \<and> ((\<forall>f < mFramePoolCount s. \<not> mbLockedForDisplay (maFrames s ! f) \<longrightarrow>
               0 \<le> sint (tlOf (maFrames s) f - b)) \<longrightarrow>
            (\<forall>f < mFramePoolCount s. \<not> mbLockedForDisplay (maFrames s ! f) \<longrightarrow>
               sint (tlOf (maFrames s) p - tlOf (maFrames s) f) \<le> 0))"
proof -
  have noInl: "findFreeLoop (maFrames s) [0 ..< length (maFrames s)] None \<noteq> Inl g" for g
    using all findFreeLoop_Inl [of "maFrames s" "[0 ..< length (maFrames s)]" None g]
    by (auto simp: mFramePoolCount_def)
  with ff have loop: "findFreeLoop (maFrames s) [0 ..< length (maFrames s)] None = Inr (Some p)"
    and drop: "dropFrame p s = Inr s'"
    by (auto simp: findFree_def bindE_eq_Inr split: sum.splits option.splits)
  from findFreeLoop_Some [OF loop]
  have p: "p < mFramePoolCount s \<and> \<not> mbLockedForDisplay (maFrames s ! p) \<and> mbQueued (maFrames s ! p)"
    by (simp add: mFramePoolCount_def)
  have old: "\<forall>f < mFramePoolCount s. \<not> mbLockedForDisplay (maFrames s ! f) \<longrightarrow>
               sint (tlOf (maFrames s) p - tlOf (maFrames s) f) \<le> 0"
    if w: "\<forall>f < mFramePoolCount s. \<not> mbLockedForDisplay (maFrames s ! f) \<longrightarrow>
               0 \<le> sint (tlOf (maFrames s) f - b)"
  proof (intro allI impI)
    fix f assume f: "f < mFramePoolCount s" "\<not> mbLockedForDisplay (maFrames s ! f)"
    from findFreeLoop_oldest [OF loop, of b] w f
    have le: "sint (tlOf (maFrames s) p - b) \<le> sint (tlOf (maFrames s) f - b)"
      by (simp add: mFramePoolCount_def)
    from w p f have "0 \<le> sint (tlOf (maFrames s) p - b)" "0 \<le> sint (tlOf (maFrames s) f - b)"
      by simp_all
    from sint_diff_same_base [OF this] le
    show "sint (tlOf (maFrames s) p - tlOf (maFrames s) f) \<le> 0"
      by simp
  qed
  from p drop old dropFrame_result [OF drop] show ?thesis
    by blast
qed

text \<open>
  C5. \<^verbatim>\<open>findFree\<close> returns \<^verbatim>\<open>NULL\<close>, and leaves the queue as it is, when every pool frame is
  locked for display, and only then. When some pool frame is neither queued nor locked
  it returns such a frame and leaves the queue as it is. Otherwise the frame it returns
  is a queued pool frame that is not locked, it is dropped by \<^verbatim>\<open>dropFrame\<close> and no longer
  in the ring, and no frame that is not locked has an older timeline index, in the order
  of signed 32-bit subtraction, provided these indices lie within half the range of one
  another: all at or after one index \<open>b\<close>, where that order is linear.
\<close>

theorem C5_findFree:
  "((\<forall>f < mFramePoolCount s. mbLockedForDisplay (maFrames s ! f)) \<longrightarrow> findFree s = Inr (None, s))
   \<and> (findFree s = Inr (None, s') \<longrightarrow> (\<forall>f < mFramePoolCount s. mbLockedForDisplay (maFrames s ! f)))
   \<and> ((\<exists>f < mFramePoolCount s. \<not> mbLockedForDisplay (maFrames s ! f) \<and> \<not> mbQueued (maFrames s ! f)) \<longrightarrow>
        (\<exists>f < mFramePoolCount s. \<not> mbLockedForDisplay (maFrames s ! f) \<and> \<not> mbQueued (maFrames s ! f)
           \<and> findFree s = Inr (Some f, s)))
   \<and> ((\<forall>f < mFramePoolCount s. mbLockedForDisplay (maFrames s ! f) \<or> mbQueued (maFrames s ! f))
        \<and> findFree s = Inr (Some p, s') \<longrightarrow>
        p < mFramePoolCount s \<and> \<not> mbLockedForDisplay (maFrames s ! p) \<and> mbQueued (maFrames s ! p)
        \<and> dropFrame p s = Inr s'
        \<and> mpWorkQueue s' = remove1 (WORK_ITEM_FRAME p) (mpWorkQueue s)
        \<and> ((\<forall>f < mFramePoolCount s. \<not> mbLockedForDisplay (maFrames s ! f) \<longrightarrow>
               0 \<le> sint (tlOf (maFrames s) f - b)) \<longrightarrow>
            (\<forall>f < mFramePoolCount s. \<not> mbLockedForDisplay (maFrames s ! f) \<longrightarrow>
               sint (tlOf (maFrames s) p - tlOf (maFrames s) f) \<le> 0)))"
  using findFree_all_locked [of s] findFree_None [of s s'] findFree_unused [of s]
    findFree_oldest [of s p s' b]
  by blast

theorem C5_findFree_witness:
  "findFree exAllLocked = Inr (None, exAllLocked)
   \<and> findFree exFresh = Inr (Some 0, exFresh)
   \<and> findFree exBothQueued = Inr (Some 0, exOldestDropped)
   \<and> mpWorkQueue exBothQueued = [WORK_ITEM_FRAME 0, WORK_ITEM_FRAME 1]
   \<and> mpWorkQueue exOldestDropped = [WORK_ITEM_FRAME 1]
   \<and> tlOf (maFrames exBothQueued) 0 = 1 \<and> tlOf (maFrames exBothQueued) (Suc 0) = 2
   \<and> sint (tlOf (maFrames exBothQueued) 0 - tlOf (maFrames exBothQueued) (Suc 0)) \<le> 0"
proof -
  have n: "mFramePoolCount exBothQueued = 2" "mFramePoolCount exAllLocked = 1"
    by code_simp+
  have f0: "mbQueued (maFrames exBothQueued ! 0)" "tlOf (maFrames exBothQueued) 0 = 1"
    and f1: "mbQueued (maFrames exBothQueued ! Suc 0)" "tlOf (maFrames exBothQueued) (Suc 0) = 2"
    and l: "mbLockedForDisplay (maFrames exAllLocked ! 0)"
    and u: "\<not> mbLockedForDisplay (maFrames exFresh ! 0) \<and> \<not> mbQueued (maFrames exFresh ! 0)"
      "0 < mFramePoolCount exFresh"
    and r: "mpWorkQueue exBothQueued = [WORK_ITEM_FRAME 0, WORK_ITEM_FRAME 1]"
      "remove1 (WORK_ITEM_FRAME 0) [WORK_ITEM_FRAME 0, WORK_ITEM_FRAME 1] = [WORK_ITEM_FRAME 1]"
    by code_simp+
  have ff: "findFree exBothQueued = Inr (Some 0, exOldestDropped)"
    "findFree exFresh = Inr (Some 0, exFresh)"
    by code_simp+
  have all: "\<forall>f < mFramePoolCount exBothQueued.
      mbLockedForDisplay (maFrames exBothQueued ! f) \<or> mbQueued (maFrames exBothQueued ! f)"
    using n f0 f1 by (auto simp: less_2_cases_iff)
  have w: "\<forall>f < mFramePoolCount exBothQueued. \<not> mbLockedForDisplay (maFrames exBothQueued ! f) \<longrightarrow>
      0 \<le> sint (tlOf (maFrames exBothQueued) f - 0)"
    using n f0 f1 by (auto simp: less_2_cases_iff)
  have al: "\<forall>f < mFramePoolCount exAllLocked. mbLockedForDisplay (maFrames exAllLocked ! f)"
    using n l by simp
  have nl: "\<not> mbLockedForDisplay (maFrames exBothQueued ! Suc 0)"
    by code_simp
  have "\<forall>f < mFramePoolCount exBothQueued. \<not> mbLockedForDisplay (maFrames exBothQueued ! f) \<longrightarrow>
         sint (tlOf (maFrames exBothQueued) 0 - tlOf (maFrames exBothQueued) f) \<le> 0"
    using C5_findFree [of exBothQueued exOldestDropped 0 0] all w ff
    by blast
  then have old: "sint (tlOf (maFrames exBothQueued) 0 - tlOf (maFrames exBothQueued) (Suc 0)) \<le> 0"
    using n nl by simp
  have rm: "mpWorkQueue exOldestDropped = remove1 (WORK_ITEM_FRAME 0) (mpWorkQueue exBothQueued)"
    using C5_findFree [of exBothQueued exOldestDropped 0 0] all ff
    by blast
  have "findFree exAllLocked = Inr (None, exAllLocked)"
    using C5_findFree [of exAllLocked exAllLocked 0 0] al
    by blast
  with old rm ff f0 f1 r show ?thesis
    by simp
qed

subsection \<open>dropRedundantFrames\<close>

lemma specRedundantWalk_events:
  "filter (\<lambda>w. \<not> isFrame w) (specRedundantWalk pool b ws) = filter (\<lambda>w. \<not> isFrame w) ws"
  by (induction ws arbitrary: b) auto

lemma specRedundantWalk_locked:
  "filter (\<lambda>w. \<not> unlockedFrame pool w) (specRedundantWalk pool b ws) = filter (\<lambda>w. \<not> unlockedFrame pool w) ws"
  by (induction ws arbitrary: b) auto

lemma completeFrame_isFrame: "completeFrame pool w \<Longrightarrow> isFrame w"
  by (simp add: completeFrame_def isFrame_def split: WorkItem.splits)

lemma unlockedFrame_isFrame: "unlockedFrame pool w \<Longrightarrow> isFrame w"
  by (simp add: unlockedFrame_def isFrame_def split: WorkItem.splits)

lemma nonRedundant_append:
  assumes "b = list_ex (completeFrame pool) post"
  shows "nonRedundant pool (rev ws @ post) = rev (specRedundantWalk pool b ws) @ nonRedundant pool post"
  using assms
proof (induction ws arbitrary: b post)
  case Nil
  show ?case by simp
next
  case (Cons w ws)
  have ih: "nonRedundant pool (rev ws @ (w # post))
      = rev (specRedundantWalk pool (completeFrame pool w \<or> b) ws) @ nonRedundant pool (w # post)"
    using Cons.prems by (intro Cons.IH) simp
  show ?case
  proof (cases "isFrame w")
    case False
    then have "\<not> completeFrame pool w" "\<not> unlockedFrame pool w"
      using completeFrame_isFrame unlockedFrame_isFrame by blast+
    with ih False show ?thesis by simp
  next
    case True
    with ih Cons.prems show ?thesis by auto
  qed
qed

lemma specDropRedundant_nonRedundant: "specDropRedundant pool ring = nonRedundant pool ring"
proof (cases "rev ring")
  case Nil
  then show ?thesis by (simp add: specDropRedundant_def)
next
  case (Cons t earlier)
  then have ring: "ring = rev earlier @ [t]"
    by (metis rev_rev_ident rev.simps(2))
  show ?thesis
    using nonRedundant_append [of "completeFrame pool t" pool "[t]" earlier]
    by (simp add: specDropRedundant_def ring)
qed

lemma dropRedundantLoop_ring:
  assumes "dropRedundantLoop ws b s = Inr s'"
    and "mpWorkQueue s = rev ws @ post"
    and "distinct (filter isFrame (rev ws @ post))"
    and "\<forall>f. WORK_ITEM_FRAME f \<in> set ws \<longrightarrow> maFrames s ! f = pool ! f"
  shows "mpWorkQueue s' = rev (specRedundantWalk pool b ws) @ post"
  using assms
proof (induction ws b s arbitrary: post rule: dropRedundantLoop.induct)
  case (1 b s)
  then show ?case by simp
next
  case (2 e ws b s)
  from 2(1) [of "WORK_ITEM_EVENT e # post"] 2(2-)
  show ?case by (simp add: isFrame_def)
next
  case (3 f ws b s)
  have fr: "isFrame (WORK_ITEM_FRAME f)"
    by (simp add: isFrame_def)
  from "3.prems"(4) have pf: "maFrames s ! f = pool ! f"
    by simp
  show ?case
  proof (cases b)
    case False
    from "3.IH"(3) [OF False, of "WORK_ITEM_FRAME f # post"] "3.prems" False pf
    show ?thesis by (simp add: fr completeFrame_def)
  next
    case True
    show ?thesis
    proof (cases "mbLockedForDisplay (maFrames s ! f)")
      case locked: True
      from "3.IH"(2) [OF True, of "WORK_ITEM_FRAME f # post"] "3.prems" True locked pf
      show ?thesis by (simp add: fr unlockedFrame_def)
    next
      case unlocked: False
      with "3.prems"(1) True obtain s1 where
        d: "dropFrame f s = Inr s1" and l: "dropRedundantLoop ws b s1 = Inr s'"
        by (auto simp: bindE_eq_Inr)
      from "3.prems"(3) have nin: "WORK_ITEM_FRAME f \<notin> set ws"
        by (auto simp: fr)
      note r = dropFrame_result [OF d]
      from r "3.prems"(2) nin have ring1: "mpWorkQueue s1 = rev ws @ post"
        by (simp add: remove1_append)
      have pool1: "\<forall>g. WORK_ITEM_FRAME g \<in> set ws \<longrightarrow> maFrames s1 ! g = pool ! g"
      proof (intro allI impI)
        fix g assume g: "WORK_ITEM_FRAME g \<in> set ws"
        with nin have "g \<noteq> f" by auto
        moreover from g "3.prems"(4) have "maFrames s ! g = pool ! g" by simp
        ultimately show "maFrames s1 ! g = pool ! g"
          using r by simp
      qed
      from "3.prems"(3) have "distinct (filter isFrame (rev ws @ post))"
        by (simp add: fr)
      from "3.IH"(1) [OF True unlocked l ring1 this pool1] True unlocked pf
      show ?thesis by (simp add: fr unlockedFrame_def)
    qed
  qed
qed

lemma doDropRedundantFrames_ring:
  assumes "doDropRedundantFrames s = Inr s'" and "distinct (filter isFrame (mpWorkQueue s))"
  shows "mpWorkQueue s' = specDropRedundant (maFrames s) (mpWorkQueue s)"
proof (cases "mpWorkQueue s" rule: rev_cases)
  case Nil
  with assms(1) show ?thesis
    by (simp add: doDropRedundantFrames_def specDropRedundant_def)
next
  case (snoc pre t)
  have fc: "frameComplete s w = completeFrame (maFrames s) w" for w
    by (simp add: frameComplete_def completeFrame_def)
  show ?thesis
  proof (cases pre)
    case Nil
    with snoc assms(1) show ?thesis
      by (simp add: doDropRedundantFrames_def specDropRedundant_def)
  next
    case (Cons a pre')
    with snoc assms(1) have
      loop: "dropRedundantLoop (rev pre) (frameComplete s t) s = Inr s'"
      by (simp add: doDropRedundantFrames_def)
    have ring: "mpWorkQueue s = rev (rev pre) @ [t]"
      using snoc by simp
    have d: "distinct (filter isFrame (rev (rev pre) @ [t]))"
      using assms(2) snoc by simp
    have "mpWorkQueue s' = rev (specRedundantWalk (maFrames s) (frameComplete s t) (rev pre)) @ [t]"
      using loop ring d by (rule dropRedundantLoop_ring) simp
    then show ?thesis
      by (simp add: specDropRedundant_def snoc fc)
  qed
qed

lemma specDropRedundant_filter:
  assumes "\<And>b ws. filter P (specRedundantWalk pool b ws) = filter P ws"
  shows "filter P (specDropRedundant pool ring) = filter P ring"
proof (cases ring rule: rev_cases)
  case Nil
  then show ?thesis by (simp add: specDropRedundant_def)
next
  case (snoc pre t)
  then show ?thesis
    by (simp add: specDropRedundant_def assms flip: rev_filter)
qed

text \<open>
  C4. On a ring that links each pool frame at most once, as every ring of a run from a
  new queue does (\<open>run_linked\<close>, \<open>ringLinked_distinct\<close>), when \<^verbatim>\<open>dropRedundantFrames\<close>
  returns the ring is what the walk of the spec leaves: from the tail backward, with
  \<open>newerComplete\<close> seeded from whether the tail is a frame whose rendering is complete,
  each earlier frame met with the flag set is dropped unless it is locked for display,
  each earlier frame met with the flag clear stays and gives the flag its own
  \<^verbatim>\<open>isRenderingComplete()\<close>, and the walk ends after the head. Said without the walk, a
  frame leaves exactly when it is not locked and a frame after it has completed
  rendering. The events of the ring, and the frames locked for display, are the same
  before and after, in the same order.
\<close>

theorem C4_dropRedundantFrames:
  assumes "dropRedundantFrames s = Inr s'" and "distinct (filter isFrame (mpWorkQueue s))"
  shows "mpWorkQueue s' = specDropRedundant (maFrames s) (mpWorkQueue s)
     \<and> mpWorkQueue s' = nonRedundant (maFrames s) (mpWorkQueue s)
     \<and> filter (\<lambda>w. \<not> isFrame w) (mpWorkQueue s') = filter (\<lambda>w. \<not> isFrame w) (mpWorkQueue s)
     \<and> filter (\<lambda>w. \<not> unlockedFrame (maFrames s) w) (mpWorkQueue s')
         = filter (\<lambda>w. \<not> unlockedFrame (maFrames s) w) (mpWorkQueue s)"
proof -
  have r: "mpWorkQueue s' = specDropRedundant (maFrames s) (mpWorkQueue s)"
    using assms by (simp add: dropRedundantFrames_def doDropRedundantFrames_ring)
  show ?thesis
    unfolding r
    using specDropRedundant_nonRedundant [of "maFrames s" "mpWorkQueue s"]
      specDropRedundant_filter [of "\<lambda>w. \<not> isFrame w" "maFrames s" "mpWorkQueue s"]
      specDropRedundant_filter [of "\<lambda>w. \<not> unlockedFrame (maFrames s) w" "maFrames s" "mpWorkQueue s"]
    by (simp add: specRedundantWalk_events specRedundantWalk_locked)
qed

theorem C4_dropRedundantFrames_witness:
  "dropRedundantFrames exRedundant = Inr exRedundantDropped
   \<and> distinct (filter isFrame (mpWorkQueue exRedundant))
   \<and> mpWorkQueue exRedundant
       = [WORK_ITEM_FRAME 0, WORK_ITEM_EVENT \<lparr>evId = 7, evEffectiveFrame = exId 1, evQueued = True\<rparr>, WORK_ITEM_FRAME 1]
   \<and> mpWorkQueue exRedundantDropped
       = [WORK_ITEM_EVENT \<lparr>evId = 7, evEffectiveFrame = exId 1, evQueued = True\<rparr>, WORK_ITEM_FRAME 1]
   \<and> specDropRedundant (maFrames exRedundant) (mpWorkQueue exRedundant) = mpWorkQueue exRedundantDropped"
proof -
  have d: "dropRedundantFrames exRedundant = Inr exRedundantDropped"
    by code_simp
  have i: "distinct (filter isFrame (mpWorkQueue exRedundant))"
    by code_simp
  have r: "mpWorkQueue exRedundant
       = [WORK_ITEM_FRAME 0, WORK_ITEM_EVENT \<lparr>evId = 7, evEffectiveFrame = exId 1, evQueued = True\<rparr>, WORK_ITEM_FRAME 1]"
    "mpWorkQueue exRedundantDropped
       = [WORK_ITEM_EVENT \<lparr>evId = 7, evEffectiveFrame = exId 1, evQueued = True\<rparr>, WORK_ITEM_FRAME 1]"
    by code_simp+
  show ?thesis
    using d i r C4_dropRedundantFrames [OF d i] by simp
qed

subsection \<open>flush\<close>

lemma invalidateLoop_keeps:
  "mpWorkQueue (invalidateLoop ws s) = mpWorkQueue s
   \<and> mEffects (invalidateLoop ws s) = mEffects s
   \<and> length (maFrames (invalidateLoop ws s)) = length (maFrames s)
   \<and> (\<forall>f. mbLockedForDisplay (maFrames (invalidateLoop ws s) ! f) = mbLockedForDisplay (maFrames s ! f)
          \<and> mType (maFrames (invalidateLoop ws s) ! f) = mType (maFrames s ! f)
          \<and> (mbValid (maFrames (invalidateLoop ws s) ! f) \<longrightarrow> mbValid (maFrames s ! f)))"
proof (induction ws s rule: invalidateLoop.induct)
  case (3 f ws s)
  have upd: "mbLockedForDisplay ((maFrames s)[f := Frame_invalidate (maFrames s ! f)] ! g)
        = mbLockedForDisplay (maFrames s ! g)
      \<and> mType ((maFrames s)[f := Frame_invalidate (maFrames s ! f)] ! g) = mType (maFrames s ! g)
      \<and> (mbValid ((maFrames s)[f := Frame_invalidate (maFrames s ! f)] ! g) \<longrightarrow> mbValid (maFrames s ! g))" for g
    by (cases "g = f"; cases "f < length (maFrames s)") (simp_all add: Frame_invalidate_def list_update_beyond)
  show ?case
  proof (cases "droppable s (WORK_ITEM_FRAME f)")
    case True
    with "3.IH"(1) upd show ?thesis by simp
  next
    case False
    with "3.IH"(2) show ?thesis by simp
  qed
qed simp_all

lemma invalidateLoop_invalid:
  assumes "WORK_ITEM_FRAME f \<in> set ws" and "f < length (maFrames s)"
    and "\<not> mbLockedForDisplay (maFrames s ! f)" and "mType (maFrames s ! f) = eFT_DISPLAY_QUEUE"
  shows "\<not> mbValid (maFrames (invalidateLoop ws s) ! f)"
  using assms
proof (induction ws s rule: invalidateLoop.induct)
  case (1 s)
  then show ?case by simp
next
  case (2 e ws s)
  then show ?case by simp
next
  case (3 g ws s)
  let ?s1 = "updFrame g Frame_invalidate s"
  show ?case
  proof (cases "droppable s (WORK_ITEM_FRAME g)")
    case dr: True
    show ?thesis
    proof (cases "g = f")
      case True
      have "\<not> mbValid (maFrames ?s1 ! f)"
        using True "3.prems"(2) by (simp add: Frame_invalidate_def)
      with invalidateLoop_keeps [of ws ?s1] dr show ?thesis
        by auto
    next
      case False
      with "3.prems" have "WORK_ITEM_FRAME f \<in> set ws" by simp
      moreover have "f < length (maFrames ?s1)" using "3.prems"(2) by simp
      moreover have "\<not> mbLockedForDisplay (maFrames ?s1 ! f)" "mType (maFrames ?s1 ! f) = eFT_DISPLAY_QUEUE"
        using False "3.prems"(3,4) by simp_all
      ultimately have "\<not> mbValid (maFrames (invalidateLoop ws ?s1) ! f)"
        using dr by (intro "3.IH"(1))
      with dr show ?thesis by simp
    qed
  next
    case ndr: False
    with "3.prems" have "g \<noteq> f"
      by (auto simp: droppable_def)
    with "3.prems" have "WORK_ITEM_FRAME f \<in> set ws" by simp
    with "3.IH"(2) [OF ndr] "3.prems" ndr show ?thesis by simp
  qed
qed

lemma doInvalidateFrames_result:
  assumes "doInvalidateFrames s = Inr s'"
  shows "mpWorkQueue s' = mpWorkQueue s \<and> mEffects s' = mEffects s \<and> framesInvalidated s s'"
proof -
  from assms have s': "s' = invalidateLoop (mpWorkQueue s) s"
    by (auto simp: doInvalidateFrames_def bindE_eq_Inr Let_def)
  show ?thesis
    using invalidateLoop_keeps [of "mpWorkQueue s" s] invalidateLoop_invalid [of _ "mpWorkQueue s" s]
    by (auto simp: s' framesInvalidated_def)
qed

lemma flush_bFlushed_eq:
  "flush_bFlushed this_id frameIndex timeoutNs s =
     (if mpWorker s = None \<and> \<not> mbConsumerBlocked s then Some (Inr (True, effect SyncFlip s))
      else Some (Inr (False, s)))"
  by (simp add: flush_bFlushed_def getWorkerTid_def Worker_getId_def doFlush_def)

lemma flush_ignores_timeout:
  "flush this_id frameIndex t1 s = flush this_id frameIndex t2 s"
  by (simp add: flush_def flush_bFlushed_eq)

lemma doFlush_eq:
  "doFlush frameIndex timeoutNs s =
     (if mpWorker s \<noteq> None \<and> flushWaitCond (sint (mQueuedWork s)) (mConsumedWork s) frameIndex s
      then (case signalWork s of Inl e \<Rightarrow> Some (Inl e) | Inr s' \<Rightarrow> None)
      else if mbConsumerBlocked s then Some (Inr (False, s))
      else Some (Inr (True, effect SyncFlip s)))"
  by (auto simp: doFlush_def doFlushLoop_eq split: sum.splits)

text \<open>
  C6, as stated, fails. In \<open>exOneFrame\<close> a worker exists, the consumer is not blocked and
  one frame is queued. \<^verbatim>\<open>Worker::getId\<close> returns the id of the thread that calls it, so
  the test \<^verbatim>\<open>getWorkerTid() != this_id\<close> of \<^verbatim>\<open>flush\<close> fails for the caller 7 and for the
  caller 8, of which one at most is the worker: both calls skip \<^verbatim>\<open>doFlush\<close> and
  invalidate the frame, with no wait, no timeout that expired and no \<^verbatim>\<open>syncFlip\<close>. The
  wait itself is not what the claim has either: \<^verbatim>\<open>doFlush\<close>, entered in this state with
  a timeout of 10 ns, signals the worker over and over with the lock held and does not
  return, since the wait on \<^verbatim>\<open>mConditionWorkConsumed\<close> is not compiled. And \<^verbatim>\<open>flush\<close> is
  declared \<^verbatim>\<open>void\<close>: it returns neither true nor false.
\<close>

theorem C6_flush_skips_the_wait:
  "mpWorker exOneFrame \<noteq> None \<and> \<not> mbConsumerBlocked exOneFrame \<and> mQueuedWork exOneFrame = 1
   \<and> mpWorkQueue exOneFrame = [WORK_ITEM_FRAME 0] \<and> mbValid (maFrames exOneFrame ! 0)
   \<and> getWorkerTid exOneFrame 7 = Some 7 \<and> getWorkerTid exOneFrame 8 = Some 8
   \<and> flush 7 0 10 exOneFrame = Some (Inr exFlushed)
   \<and> flush 8 0 10 exOneFrame = Some (Inr exFlushed)
   \<and> \<not> mbValid (maFrames exFlushed ! 0)
   \<and> SyncFlip \<notin> set (mEffects exFlushed)
   \<and> doFlush 0 10 exOneFrame = None"
proof -
  have a: "mpWorker exOneFrame \<noteq> None \<and> \<not> mbConsumerBlocked exOneFrame \<and> mQueuedWork exOneFrame = 1
   \<and> mpWorkQueue exOneFrame = [WORK_ITEM_FRAME 0] \<and> mbValid (maFrames exOneFrame ! 0)
   \<and> getWorkerTid exOneFrame 7 = Some 7 \<and> getWorkerTid exOneFrame 8 = Some 8
   \<and> flush 7 0 10 exOneFrame = Some (Inr exFlushed)
   \<and> flush 8 0 10 exOneFrame = Some (Inr exFlushed)
   \<and> \<not> mbValid (maFrames exFlushed ! 0)
   \<and> SyncFlip \<notin> set (mEffects exFlushed)"
    by code_simp
  have b: "flushWaitCond (sint (mQueuedWork exOneFrame)) (mConsumedWork exOneFrame) 0 exOneFrame"
    "signalWork exOneFrame = Inr (projr (signalWork exOneFrame))"
    by code_simp+
  obtain s1 where "signalWork exOneFrame = Inr s1"
    using b(2) by blast
  with a b(1) have "doFlush 0 10 exOneFrame = None"
    by (simp add: doFlush_eq)
  with a show ?thesis
    by simp
qed

text \<open>
  C6, amended. \<^verbatim>\<open>flush\<close> returns no value, always returns, and its outcome does not
  depend on \<open>timeoutNs\<close>. Its local flag \<^verbatim>\<open>bFlushed\<close> is the value of \<^verbatim>\<open>doFlush\<close> when that is
  called, and false when it is skipped: when the test \<^verbatim>\<open>getWorkerTid() != this_id\<close> fails
  or the consumer is blocked. Whenever the flag is false \<^verbatim>\<open>flush\<close> has run
  \<^verbatim>\<open>doInvalidateFrames\<close>, which leaves the ring as it is and marks every display-queue
  frame of the ring that is not locked for display invalid, and \<^verbatim>\<open>syncFlip\<close> was not
  called. The flag is true only with \<^verbatim>\<open>syncFlip\<close> called, as the last thing done, and no
  frame touched. \<^verbatim>\<open>doFlush\<close>, when it returns, returns false if the consumer is blocked and
  true otherwise, after \<^verbatim>\<open>syncFlip\<close>; entered with a worker and the condition of its loop
  true it does not return, for the wait in the loop is not compiled.
\<close>

theorem C6_flush:
  "(\<exists>r. flush this_id frameIndex timeoutNs s = Some r)
   \<and> flush this_id frameIndex timeoutNs s = flush this_id frameIndex 0 s
   \<and> (flush_bFlushed this_id frameIndex timeoutNs s = Some (Inr (bFlushed, s1))
        \<and> flush this_id frameIndex timeoutNs s = Some (Inr s') \<longrightarrow>
       (getWorkerTid s this_id = Some this_id \<or> mbConsumerBlocked s \<longrightarrow> \<not> bFlushed)
       \<and> (\<not> bFlushed \<longrightarrow> s1 = s \<and> doInvalidateFrames s = Inr s' \<and> mpWorkQueue s' = mpWorkQueue s
             \<and> mEffects s' = mEffects s \<and> framesInvalidated s s')
       \<and> (bFlushed \<longrightarrow> s' = s1 \<and> maFrames s' = maFrames s \<and> mEffects s' = mEffects s @ [SyncFlip]))
   \<and> (doFlush frameIndex timeoutNs s = Some (Inr (b, s2)) \<longrightarrow>
        b = (\<not> mbConsumerBlocked s) \<and> s2 = (if b then effect SyncFlip s else s))
   \<and> (mpWorker s \<noteq> None \<and> flushWaitCond (sint (mQueuedWork s)) (mConsumedWork s) frameIndex s \<longrightarrow>
        doFlush frameIndex timeoutNs s \<noteq> Some (Inr (b, s2)))"
proof -
  have "\<exists>r. flush this_id frameIndex timeoutNs s = Some r"
    by (rule flush_returns)
  moreover have "flush this_id frameIndex timeoutNs s = flush this_id frameIndex 0 s"
    by (rule flush_ignores_timeout)
  moreover have "\<not> bFlushed" if "getWorkerTid s this_id = Some this_id \<or> mbConsumerBlocked s"
    and "flush_bFlushed this_id frameIndex timeoutNs s = Some (Inr (bFlushed, s1))"
    using that by (auto simp: flush_bFlushed_eq getWorkerTid_def split: if_splits)
  moreover have "s1 = s \<and> doInvalidateFrames s = Inr s' \<and> mpWorkQueue s' = mpWorkQueue s
             \<and> mEffects s' = mEffects s \<and> framesInvalidated s s'"
    if "\<not> bFlushed" and "flush_bFlushed this_id frameIndex timeoutNs s = Some (Inr (bFlushed, s1))"
      and "flush this_id frameIndex timeoutNs s = Some (Inr s')"
  proof -
    from that have "s1 = s" and d: "doInvalidateFrames s = Inr s'"
      by (auto simp: flush_def flush_bFlushed_eq split: if_splits)
    with doInvalidateFrames_result [OF d] show ?thesis by simp
  qed
  moreover have "s' = s1 \<and> maFrames s' = maFrames s \<and> mEffects s' = mEffects s @ [SyncFlip]"
    if "bFlushed" and "flush_bFlushed this_id frameIndex timeoutNs s = Some (Inr (bFlushed, s1))"
      and "flush this_id frameIndex timeoutNs s = Some (Inr s')"
    using that by (auto simp: flush_def flush_bFlushed_eq split: if_splits)
  moreover have "b = (\<not> mbConsumerBlocked s) \<and> s2 = (if b then effect SyncFlip s else s)"
    if "doFlush frameIndex timeoutNs s = Some (Inr (b, s2))"
    using that by (auto simp: doFlush_eq split: if_splits sum.splits)
  moreover have "doFlush frameIndex timeoutNs s \<noteq> Some (Inr (b, s2))"
    if "mpWorker s \<noteq> None \<and> flushWaitCond (sint (mQueuedWork s)) (mConsumedWork s) frameIndex s"
    using that by (auto simp: doFlush_eq split: sum.splits)
  ultimately show ?thesis
    by blast
qed

theorem C6_flush_witness:
  "getWorkerTid exOneFrame 7 = Some 7
   \<and> flush_bFlushed 7 0 10 exOneFrame = Some (Inr (False, exOneFrame))
   \<and> flush 7 0 10 exOneFrame = Some (Inr exFlushed)
   \<and> mpWorkQueue exOneFrame = [WORK_ITEM_FRAME 0] \<and> mbValid (maFrames exOneFrame ! 0)
   \<and> \<not> mbValid (maFrames exFlushed ! 0)
   \<and> flush_bFlushed 7 0 10 exFresh = Some (Inr (True, effect SyncFlip exFresh))
   \<and> flush 7 0 10 exFresh = Some (Inr (effect SyncFlip exFresh))
   \<and> doFlush 0 10 exFresh = Some (Inr (True, effect SyncFlip exFresh))
   \<and> mpWorker exOneFrame \<noteq> None
   \<and> flushWaitCond (sint (mQueuedWork exOneFrame)) (mConsumedWork exOneFrame) 0 exOneFrame
   \<and> doFlush 0 10 exOneFrame \<noteq> Some (Inr (True, effect SyncFlip exOneFrame))"
proof -
  have a: "getWorkerTid exOneFrame 7 = Some 7"
    "flush_bFlushed 7 0 10 exOneFrame = Some (Inr (False, exOneFrame))"
    "flush 7 0 10 exOneFrame = Some (Inr exFlushed)"
    by code_simp+
  have b: "mpWorkQueue exOneFrame = [WORK_ITEM_FRAME 0]" "mbValid (maFrames exOneFrame ! 0)"
    "0 < length (maFrames exOneFrame)" "\<not> mbLockedForDisplay (maFrames exOneFrame ! 0)"
    "mType (maFrames exOneFrame ! 0) = eFT_DISPLAY_QUEUE"
    by code_simp+
  have c: "flush_bFlushed 7 0 10 exFresh = Some (Inr (True, effect SyncFlip exFresh))"
    "flush 7 0 10 exFresh = Some (Inr (effect SyncFlip exFresh))"
    "doFlush 0 10 exFresh = Some (Inr (True, effect SyncFlip exFresh))"
    by code_simp+
  have d: "mpWorker exOneFrame \<noteq> None"
    "flushWaitCond (sint (mQueuedWork exOneFrame)) (mConsumedWork exOneFrame) 0 exOneFrame"
    by code_simp+
  have "framesInvalidated exOneFrame exFlushed"
    using C6_flush [of 7 0 10 exOneFrame False exOneFrame exFlushed] a by simp
  then have e: "\<not> mbValid (maFrames exFlushed ! 0)"
    using b by (simp add: framesInvalidated_def)
  have "doFlush 0 10 exOneFrame \<noteq> Some (Inr (True, effect SyncFlip exOneFrame))"
    using C6_flush [where s = exOneFrame and frameIndex = 0 and timeoutNs = 10 and b = True
        and ?s2.0 = "effect SyncFlip exOneFrame"] d
    by blast
  with a b c d e show ?thesis
    by simp
qed

subsection \<open>Events\<close>

text \<open>
  The events of the ring across the functions: the drops and the flip take frames off
  the ring, \<^verbatim>\<open>doQueueWork\<close> appends its item, \<^verbatim>\<open>queueDrop\<close> writes to the tail.
\<close>

lemma eventsOf_append [simp]: "eventsOf (xs @ ys) = eventsOf xs @ eventsOf ys"
  by (induction xs rule: eventsOf.induct) simp_all

lemma eventsOf_remove1_frame [simp]: "eventsOf (remove1 (WORK_ITEM_FRAME f) ws) = eventsOf ws"
  by (induction ws rule: eventsOf.induct) simp_all

lemma eventsOf_last_event:
  assumes "ws \<noteq> []" and "last ws = WORK_ITEM_EVENT e"
  shows "eventsOf ws = eventsOf (butlast ws) @ [e]"
proof -
  from assms have "ws = butlast ws @ [WORK_ITEM_EVENT e]"
    by (metis append_butlast_last_id)
  then have "eventsOf ws = eventsOf (butlast ws @ [WORK_ITEM_EVENT e])"
    by simp
  then show ?thesis
    by simp
qed

lemma dropFrame_events: "dropFrame f s = Inr s' \<Longrightarrow> eventsOf (mpWorkQueue s') = eventsOf (mpWorkQueue s)"
  using dropFrame_result [of f s s'] by simp

lemma dropRedundantLoop_events:
  "dropRedundantLoop ws b s = Inr s' \<Longrightarrow> eventsOf (mpWorkQueue s') = eventsOf (mpWorkQueue s)"
proof (induction ws b s rule: dropRedundantLoop.induct)
  case (3 f ws b s)
  then show ?case
    by (auto simp: bindE_eq_Inr split: if_splits dest!: dropFrame_events)
qed simp_all

lemma doDropRedundantFrames_events:
  "doDropRedundantFrames s = Inr s' \<Longrightarrow> eventsOf (mpWorkQueue s') = eventsOf (mpWorkQueue s)"
  by (auto simp: doDropRedundantFrames_def split: if_splits dest: dropRedundantLoop_events)

lemma dropAllLoop_events:
  "dropAllLoop ws s = Inr s' \<Longrightarrow> eventsOf (mpWorkQueue s') = eventsOf (mpWorkQueue s)"
proof (induction ws s rule: dropAllLoop.induct)
  case (3 f ws s)
  then show ?case
    by (auto simp: bindE_eq_Inr split: if_splits dest!: dropFrame_events)
qed simp_all

lemma dropAllFrames_events:
  "dropAllFrames s = Inr s' \<Longrightarrow> eventsOf (mpWorkQueue s') = eventsOf (mpWorkQueue s)"
  by (auto simp: dropAllFrames_def bindE_eq_Inr dest: dropAllLoop_events)

lemma limitUsedFrames_events:
  "limitUsedFrames s = Inr s' \<Longrightarrow> eventsOf (mpWorkQueue s') = eventsOf (mpWorkQueue s)"
  by (auto simp: limitUsedFrames_def bindE_eq_Inr dest: doDropRedundantFrames_events)

lemma findFree_events:
  "findFree s = Inr (p, s') \<Longrightarrow> eventsOf (mpWorkQueue s') = eventsOf (mpWorkQueue s)"
  by (auto simp: findFree_def bindE_eq_Inr split: sum.splits option.splits dest: dropFrame_events)

lemma signalWork_ring: "signalWork s = Inr s' \<Longrightarrow> mpWorkQueue s' = mpWorkQueue s"
  by (auto simp: signalWork_def Worker_signalWork_def bindE_eq_Inr split: option.splits)

lemma doQueueWork_ring:
  "doQueueWork w s = Inr s' \<Longrightarrow>
     mpWorkQueue s' = mpWorkQueue s @ [case w of WORK_ITEM_FRAME f \<Rightarrow> WORK_ITEM_FRAME f
                                        | WORK_ITEM_EVENT e \<Rightarrow> WORK_ITEM_EVENT (e\<lparr>evQueued := True\<rparr>)]"
  by (auto simp: doQueueWork_def WorkItem_queue_def bindE_eq_Inr Let_def startWorker_def
      split: if_splits WorkItem.splits dest!: signalWork_ring)

lemma queueEvent_ring:
  assumes "queueEvent e s = Inr (r, s')"
  shows "r = OK \<and> mLastQueuedFrame s' = mLastQueuedFrame s
     \<and> mpWorkQueue s' = mpWorkQueue s
         @ [WORK_ITEM_EVENT (e\<lparr>evEffectiveFrame := mLastQueuedFrame s, evQueued := True\<rparr>)]"
  using assms
  by (auto simp: queueEvent_def bindE_eq_Inr sameIds_def dest: doQueueWork_ring doQueueWork_ids)

lemma queueFrame_events:
  assumes "queueFrame stack zorder i config allocOk s = Inr (r, s')"
  shows "eventsOf (mpWorkQueue s') = eventsOf (mpWorkQueue s)"
proof -
  from assms obtain s1 pNew s2 where
    lim: "limitUsedFrames s = Inr s1" and ff: "findFree s1 = Inr (pNew, s2)"
    by (auto simp: queueFrame_def bindE_eq_Inr)
  have ev: "eventsOf (mpWorkQueue s2) = eventsOf (mpWorkQueue s)"
    using limitUsedFrames_events [OF lim] findFree_events [OF ff] by simp
  from assms ev show ?thesis
    by (auto simp: queueFrame_def lim ff bindE_eq_Inr Let_def
        split: option.splits if_splits dest!: doQueueWork_ring)
qed

lemma queueDrop_events:
  assumes "queueDrop i s = Inr s'"
  shows "eventsOf (mpWorkQueue s') = specEvents (OpQueueDrop i) s"
proof (cases "mpWorkQueue s = []")
  case True
  with assms show ?thesis
    by (auto simp: queueDrop_def bindE_eq_Inr Let_def doAdvanceIssuedFrame_def specEvents_def)
next
  case False
  with assms have s': "mpWorkQueue s' = mpWorkQueue (setEffectiveFrameLast i s)"
    by (auto simp: queueDrop_def bindE_eq_Inr Let_def)
  show ?thesis
  proof (cases "last (mpWorkQueue s)")
    case (WORK_ITEM_FRAME f)
    with False show ?thesis
      by (simp add: s' setEffectiveFrameLast_def specEvents_def isFrame_def)
  next
    case (WORK_ITEM_EVENT e)
    note ev = eventsOf_last_event [OF False WORK_ITEM_EVENT]
    from False WORK_ITEM_EVENT show ?thesis
      by (simp add: s' setEffectiveFrameLast_def specEvents_def isFrame_def ev)
  qed
qed

lemma doConsumeFrame_flip_events:
  "doConsumeFrame_flip f s = Inr s' \<Longrightarrow> eventsOf (mpWorkQueue s') = eventsOf (mpWorkQueue s)"
  by (auto simp: doConsumeFrame_flip_def WorkItem_dequeue_def bindE_eq_Inr Let_def)

lemma lockFrameForDisplay_ring [simp]: "mpWorkQueue (lockFrameForDisplay f s) = mpWorkQueue s"
  by (simp add: lockFrameForDisplay_def)

lemma unlockFrameForDisplay_ring [simp]: "mpWorkQueue (unlockFrameForDisplay f s) = mpWorkQueue s"
  by (simp add: unlockFrameForDisplay_def)

lemma doConsumeFrame_start_events:
  "doConsumeFrame_start f s = Inr s' \<Longrightarrow> eventsOf (mpWorkQueue s') = eventsOf (mpWorkQueue s)"
  by (auto simp: doConsumeFrame_start_def bindE_eq_Inr Let_def split: if_splits
      dest!: doConsumeFrame_flip_events)

lemma doConsumeFrame_synced_events:
  assumes "doConsumeFrame_synced f s = Inr s'"
  shows "eventsOf (mpWorkQueue s') = eventsOf (mpWorkQueue s)"
proof -
  from assms obtain s1 where
    d: "doDropRedundantFrames (unlockFrameForDisplay f s) = Inr s1" and
    rest: "(case mpWorkQueue s1 of
         WORK_ITEM_FRAME pFrame # ws \<Rightarrow>
           let s = lockFrameForDisplay pFrame s1
           in bindE (HWCASSERT (mType (maFrames s ! pFrame) = eFT_DISPLAY_QUEUE)) (\<lambda>_.
                doConsumeFrame_flip pFrame s)
       | _ \<Rightarrow> Inr (s1\<lparr>mPhase := PhaseIdle\<rparr>)) = Inr s'"
    by (auto simp: doConsumeFrame_synced_def bindE_eq_Inr)
  from doDropRedundantFrames_events [OF d] have "eventsOf (mpWorkQueue s1) = eventsOf (mpWorkQueue s)"
    by simp
  moreover from rest have "eventsOf (mpWorkQueue s') = eventsOf (mpWorkQueue s1)"
    by (auto simp: bindE_eq_Inr Let_def split: list.splits WorkItem.splits
        dest!: doConsumeFrame_flip_events)
  ultimately show ?thesis
    by simp
qed

lemma doConsumeEvent_retire_result:
  assumes "doConsumeEvent_retire t = Inr t'"
  shows "\<exists>e ws. mpWorkQueue t = WORK_ITEM_EVENT e # ws \<and> mpWorkQueue t' = ws
     \<and> mLastIssuedFrame t' = evEffectiveFrame e
     \<and> mEffects t' = mEffects t @ [NotifyWorkConsumed, DeleteEvent (e\<lparr>evQueued := False\<rparr>)]
     \<and> mPhase t' = PhaseIdle"
  using assms
  by (auto simp: doConsumeEvent_retire_def bindE_eq_Inr Let_def WorkItem_dequeue_def
      doAdvanceIssuedFrame_def split: list.splits WorkItem.splits)

lemma consumeWork_section_events:
  assumes "consumeWork_section s = Inr s'"
  shows "eventsOf (mpWorkQueue s') = specEvents OpConsumeWork s"
proof (cases "mPhase s")
  case PhaseIdle
  with assms show ?thesis
    by (auto simp: consumeWork_section_def doConsumeWork_start_def doConsumeEvent_issue_def
        bindE_eq_Inr specEvents_def split: list.splits WorkItem.splits
        dest!: doConsumeFrame_start_events)
next
  case PhaseEventIssued
  with assms doConsumeEvent_retire_result [of s s'] show ?thesis
    by (auto simp: consumeWork_section_def specEvents_def)
next
  case (PhaseWaitRendering f)
  with assms show ?thesis
    by (auto simp: consumeWork_section_def specEvents_def dest!: doConsumeFrame_synced_events)
next
  case (PhaseFlipIssued i)
  with assms show ?thesis
    by (auto simp: consumeWork_section_def doConsumeFrame_retire_def doAdvanceIssuedFrame_def
        bindE_eq_Inr specEvents_def)
qed

lemma flush_ring: "flush tid i t s = Some (Inr s') \<Longrightarrow> mpWorkQueue s' = mpWorkQueue s"
  by (auto simp: flush_def flush_bFlushed_eq split: if_splits dest!: doInvalidateFrames_result)

lemma perform_events:
  assumes "perform op s = Some (Inr s')"
  shows "eventsOf (mpWorkQueue s') = specEvents op s"
proof (cases op)
  case (OpQueueEvent e)
  with assms show ?thesis
    by (auto simp: perform_def bindE_eq_Inr specEvents_def dest!: queueEvent_ring)
next
  case (OpQueueFrame stack zorder i config allocOk)
  with assms show ?thesis
    by (auto simp: perform_def bindE_eq_Inr specEvents_def dest!: queueFrame_events)
next
  case (OpQueueDrop i)
  with assms show ?thesis
    by (auto simp: perform_def dest!: queueDrop_events)
next
  case OpConsumeWork
  with assms show ?thesis
    by (auto simp: perform_def dest!: consumeWork_section_events)
next
  case (OpFlush tid i t)
  with assms show ?thesis
    by (auto simp: perform_def specEvents_def dest!: flush_ring)
qed (use assms in \<open>auto simp: perform_def init_def consumerBlocked_def consumerUnblocked_def
      notifyReady_def releaseFrame_def dropRedundantFrames_def doReleaseFrame_def specEvents_def
      bindE_eq_Inr Let_def split: if_splits
      dest!: dropAllFrames_events doDropRedundantFrames_events signalWork_ring\<close>)

text \<open>Two events that agree in id and effective frame are queued one behind the other.\<close>

lemma queueEvent_equal_events:
  "map (\<lambda>s. eventsOf (mpWorkQueue s)) (run [OpQueueEvent (Event_new 1), OpQueueEvent (Event_new 1)] exFresh)
     = [[], [\<lparr>evId = 1, evEffectiveFrame = exId 0, evQueued = True\<rparr>],
        [\<lparr>evId = 1, evEffectiveFrame = exId 0, evQueued = True\<rparr>,
         \<lparr>evId = 1, evEffectiveFrame = exId 0, evQueued = True\<rparr>]]"
  by code_simp

text \<open>
  C8, as stated, fails. A frame with id (5,5) is queued, then an event, which
  \<^verbatim>\<open>queueEvent\<close> stamps with the \<open>mLastQueuedFrame\<close> of that moment, (5,5). \<^verbatim>\<open>queueDrop\<close>
  of (9,9) finds the event at the tail of the ring and overwrites its effective frame.
  A frame with id (10,10) is queued behind it: the event lies between two frames, and
  the id of the one before it is (5,5). The worker consumes the first frame and then the
  event: \<open>mLastIssuedFrame\<close> goes from (5,5) to (9,9), not to the value of the enqueue.
\<close>

theorem C8_queueDrop_restamps_event:
  "length (run exDropOps exFresh) = 10
   \<and> mLastQueuedFrame (run exDropOps exFresh ! 1) = exId 5
   \<and> mpWorkQueue (run exDropOps exFresh ! 2)
       = [WORK_ITEM_FRAME 0, WORK_ITEM_EVENT \<lparr>evId = 42, evEffectiveFrame = exId 5, evQueued = True\<rparr>]
   \<and> mpWorkQueue (run exDropOps exFresh ! 4)
       = [WORK_ITEM_FRAME 0, WORK_ITEM_EVENT \<lparr>evId = 42, evEffectiveFrame = exId 9, evQueued = True\<rparr>,
          WORK_ITEM_FRAME 1]
   \<and> mFrameId (maFrames (run exDropOps exFresh ! 4) ! 0) = exId 5
   \<and> mFrameId (maFrames (run exDropOps exFresh ! 4) ! 1) = exId 10
   \<and> mPhase (run exDropOps exFresh ! 8) = PhaseEventIssued
   \<and> mLastIssuedFrame (run exDropOps exFresh ! 8) = exId 5
   \<and> mLastIssuedFrame (run exDropOps exFresh ! 9) = exId 9
   \<and> exId 9 \<noteq> exId 5"
  by code_simp

text \<open>
  C8, amended. \<^verbatim>\<open>queueEvent( e )\<close> returns \<^verbatim>\<open>OK\<close>, leaves \<open>mLastQueuedFrame\<close> as it is and
  links \<open>e\<close> at the tail of the ring with that id as its effective frame. From then on
  the events of the ring are changed by two operations only, whatever else runs:
  \<^verbatim>\<open>queueDrop( id )\<close> sets the effective frame of the event that is the tail of the ring
  to \<open>id\<close>, and the section of \<^verbatim>\<open>consumeWork\<close> that follows the backend's
  \<^verbatim>\<open>consumeWork( pEvent )\<close> takes the head event off the ring. That section advances
  \<open>mLastIssuedFrame\<close> to the effective frame the event carries then, notifies
  \<^verbatim>\<open>mConditionWorkConsumed\<close> and deletes the event. So an event is issued with the
  \<open>mLastQueuedFrame\<close> of its enqueue unless a drop found it at the tail of the ring; then
  with the id of the last such drop.
\<close>

theorem C8_events:
  assumes "perform op s = Some (Inr s')"
  shows "eventsOf (mpWorkQueue s') = specEvents op s
     \<and> (\<forall>e. op = OpQueueEvent e \<longrightarrow>
          queueEvent e s = Inr (OK, s') \<and> mLastQueuedFrame s' = mLastQueuedFrame s
          \<and> mpWorkQueue s' = mpWorkQueue s
              @ [WORK_ITEM_EVENT (e\<lparr>evEffectiveFrame := mLastQueuedFrame s, evQueued := True\<rparr>)])
     \<and> (op = OpConsumeWork \<and> mPhase s = PhaseEventIssued \<longrightarrow>
          (\<exists>e ws. mpWorkQueue s = WORK_ITEM_EVENT e # ws \<and> mpWorkQueue s' = ws
             \<and> mLastIssuedFrame s' = evEffectiveFrame e
             \<and> mEffects s' = mEffects s @ [NotifyWorkConsumed, DeleteEvent (e\<lparr>evQueued := False\<rparr>)]))"
proof -
  have "eventsOf (mpWorkQueue s') = specEvents op s"
    using assms by (rule perform_events)
  moreover have "queueEvent e s = Inr (OK, s') \<and> mLastQueuedFrame s' = mLastQueuedFrame s
          \<and> mpWorkQueue s' = mpWorkQueue s
              @ [WORK_ITEM_EVENT (e\<lparr>evEffectiveFrame := mLastQueuedFrame s, evQueued := True\<rparr>)]"
    if "op = OpQueueEvent e" for e
  proof -
    from assms that obtain r where q: "queueEvent e s = Inr (r, s')"
      by (auto simp: perform_def bindE_eq_Inr)
    with queueEvent_ring [OF q] show ?thesis by simp
  qed
  moreover have "\<exists>e ws. mpWorkQueue s = WORK_ITEM_EVENT e # ws \<and> mpWorkQueue s' = ws
             \<and> mLastIssuedFrame s' = evEffectiveFrame e
             \<and> mEffects s' = mEffects s @ [NotifyWorkConsumed, DeleteEvent (e\<lparr>evQueued := False\<rparr>)]"
    if "op = OpConsumeWork" and "mPhase s = PhaseEventIssued"
  proof -
    from assms that have "doConsumeEvent_retire s = Inr s'"
      by (simp add: perform_def consumeWork_section_def)
    from doConsumeEvent_retire_result [OF this] show ?thesis
      by blast
  qed
  ultimately show ?thesis
    by blast
qed

theorem C8_events_witness:
  "perform (OpQueueEvent (Event_new 42)) (run exDropOps exFresh ! 1) = Some (Inr (run exDropOps exFresh ! 2))
   \<and> mLastQueuedFrame (run exDropOps exFresh ! 1) = exId 5
   \<and> eventsOf (mpWorkQueue (run exDropOps exFresh ! 2))
        = [\<lparr>evId = 42, evEffectiveFrame = exId 5, evQueued = True\<rparr>]
   \<and> perform (OpQueueDrop (exId 9)) (run exDropOps exFresh ! 2) = Some (Inr (run exDropOps exFresh ! 3))
   \<and> eventsOf (mpWorkQueue (run exDropOps exFresh ! 3))
        = [\<lparr>evId = 42, evEffectiveFrame = exId 9, evQueued = True\<rparr>]
   \<and> perform OpConsumeWork (run exDropOps exFresh ! 8) = Some (Inr (run exDropOps exFresh ! 9))
   \<and> mPhase (run exDropOps exFresh ! 8) = PhaseEventIssued
   \<and> mLastIssuedFrame (run exDropOps exFresh ! 9) = exId 9
   \<and> perform OpConsumeWork (run exOps exFresh ! 7) = Some (Inr (run exOps exFresh ! 8))
   \<and> mPhase (run exOps exFresh ! 7) = PhaseEventIssued
   \<and> mLastIssuedFrame (run exOps exFresh ! 8) = exId 5"
proof -
  have p: "perform (OpQueueEvent (Event_new 42)) (run exDropOps exFresh ! 1) = Some (Inr (run exDropOps exFresh ! 2))"
    "perform (OpQueueDrop (exId 9)) (run exDropOps exFresh ! 2) = Some (Inr (run exDropOps exFresh ! 3))"
    "perform OpConsumeWork (run exDropOps exFresh ! 8) = Some (Inr (run exDropOps exFresh ! 9))"
    "perform OpConsumeWork (run exOps exFresh ! 7) = Some (Inr (run exOps exFresh ! 8))"
    by code_simp+
  have s: "mLastQueuedFrame (run exDropOps exFresh ! 1) = exId 5"
    "specEvents (OpQueueEvent (Event_new 42)) (run exDropOps exFresh ! 1)
       = [\<lparr>evId = 42, evEffectiveFrame = exId 5, evQueued = True\<rparr>]"
    "specEvents (OpQueueDrop (exId 9)) (run exDropOps exFresh ! 2)
       = [\<lparr>evId = 42, evEffectiveFrame = exId 9, evQueued = True\<rparr>]"
    "mPhase (run exDropOps exFresh ! 8) = PhaseEventIssued"
    "mpWorkQueue (run exDropOps exFresh ! 8)
       = [WORK_ITEM_EVENT \<lparr>evId = 42, evEffectiveFrame = exId 9, evQueued = True\<rparr>, WORK_ITEM_FRAME 1]"
    "mPhase (run exOps exFresh ! 7) = PhaseEventIssued"
    "mpWorkQueue (run exOps exFresh ! 7)
       = [WORK_ITEM_EVENT \<lparr>evId = 42, evEffectiveFrame = exId 5, evQueued = True\<rparr>, WORK_ITEM_FRAME 1]"
    by code_simp+
  from C8_events [OF p(1), THEN conjunct1] s(2)
  have e2: "eventsOf (mpWorkQueue (run exDropOps exFresh ! 2))
        = [\<lparr>evId = 42, evEffectiveFrame = exId 5, evQueued = True\<rparr>]"
    by simp
  from C8_events [OF p(2), THEN conjunct1] s(3)
  have e3: "eventsOf (mpWorkQueue (run exDropOps exFresh ! 3))
        = [\<lparr>evId = 42, evEffectiveFrame = exId 9, evQueued = True\<rparr>]"
    by simp
  from C8_events [OF p(3)] s(4,5) have i9: "mLastIssuedFrame (run exDropOps exFresh ! 9) = exId 9"
    by auto
  from C8_events [OF p(4)] s(6,7) have i8: "mLastIssuedFrame (run exOps exFresh ! 8) = exId 5"
    by auto
  from p s(1,4,6) e2 e3 i9 i8 show ?thesis
    by simp
qed

subsection \<open>The links of the ring\<close>

text \<open>
  A new queue is \<open>ringLinked\<close> and every operation that returns keeps it so: the rings
  that C3 and C4 speak of, which link each pool frame once and only frames of the pool,
  are those of every run from a new queue.
\<close>

lemma frame_mem_filter: "WORK_ITEM_FRAME f \<in> set (filter isFrame ws) \<longleftrightarrow> WORK_ITEM_FRAME f \<in> set ws"
  by (simp add: isFrame_def)

lemma ringLinked_shape:
  "ringLinked s \<longleftrightarrow>
     distinct (fst (linkShape s))
     \<and> (\<forall>f. WORK_ITEM_FRAME f \<in> set (fst (linkShape s)) \<longrightarrow> f < length (snd (linkShape s)))
     \<and> (\<forall>f < length (snd (linkShape s)). snd (linkShape s) ! f \<longleftrightarrow> WORK_ITEM_FRAME f \<in> set (fst (linkShape s)))"
  unfolding ringLinked_def linkShape_def fst_conv snd_conv frame_mem_filter
  by simp

lemma linkShape_linked: "linkShape s' = linkShape s \<Longrightarrow> ringLinked s \<Longrightarrow> ringLinked s'"
  by (simp add: ringLinked_shape)

lemma linkShape_effect [simp]: "linkShape (effect e s) = linkShape s"
  by (simp add: linkShape_def)

lemma map_update_same:
  assumes "h (g (xs ! f)) = h (xs ! f)"
  shows "map h (xs[f := g (xs ! f)]) = map h xs"
proof (cases "f < length xs")
  case True
  then have "(map h xs)[f := h (xs ! f)] = map h xs"
    by (metis list_update_id nth_map)
  with assms show ?thesis
    by (simp add: map_update)
next
  case False
  then show ?thesis by (simp add: list_update_beyond)
qed

lemma linkShape_updFrame:
  "mbQueued (g (maFrames s ! f)) = mbQueued (maFrames s ! f) \<Longrightarrow> linkShape (updFrame f g s) = linkShape s"
  by (simp add: linkShape_def map_update_same)

lemma ringLinked_new: "ringLinked (DisplayQueue_new n l b)"
  by (simp add: ringLinked_def DisplayQueue_new_def Frame_new_def)

lemma WorkItem_queue_linked:
  assumes "WorkItem_queue w s = Inr s'" and "ringLinked s"
  shows "ringLinked s'"
proof (cases w)
  case (WORK_ITEM_EVENT e)
  with assms(1) have "linkShape s' = linkShape s"
    by (auto simp: WorkItem_queue_def bindE_eq_Inr Let_def linkShape_def isFrame_def)
  then show ?thesis using assms(2) by (rule linkShape_linked)
next
  case (WORK_ITEM_FRAME f)
  with assms(1) have f: "f < length (maFrames s)" "\<not> mbQueued (maFrames s ! f)"
    and r: "mpWorkQueue s' = mpWorkQueue s @ [WORK_ITEM_FRAME f]"
    and p: "maFrames s' = (maFrames s)[f := (maFrames s ! f)\<lparr>mbQueued := True\<rparr>]"
    by (auto simp: WorkItem_queue_def bindE_eq_Inr Let_def validItem_def isQueued_def)
  from assms(2) f have nin: "WORK_ITEM_FRAME f \<notin> set (mpWorkQueue s)"
    by (simp add: ringLinked_def)
  have d: "distinct (filter isFrame (mpWorkQueue s'))"
    using assms(2) nin by (simp add: ringLinked_def r isFrame_def)
  have v: "\<forall>g. WORK_ITEM_FRAME g \<in> set (mpWorkQueue s') \<longrightarrow> g < length (maFrames s')"
    using assms(2) f by (auto simp: ringLinked_def r p)
  have q: "\<forall>g < length (maFrames s'). mbQueued (maFrames s' ! g) \<longleftrightarrow> WORK_ITEM_FRAME g \<in> set (mpWorkQueue s')"
  proof (intro allI impI)
    fix g assume "g < length (maFrames s')"
    then have g: "g < length (maFrames s)" by (simp add: p)
    show "mbQueued (maFrames s' ! g) \<longleftrightarrow> WORK_ITEM_FRAME g \<in> set (mpWorkQueue s')"
    proof (cases "g = f")
      case True
      with f show ?thesis by (simp add: r p)
    next
      case False
      with assms(2) g show ?thesis by (simp add: ringLinked_def r p)
    qed
  qed
  from d v q show ?thesis
    by (simp add: ringLinked_def)
qed

lemma filter_isFrame_remove1_event:
  "filter isFrame (remove1 (WORK_ITEM_EVENT e) ws) = filter isFrame ws"
  by (induction ws) (auto simp: isFrame_def)

lemma filter_isFrame_remove1_frame:
  "filter isFrame (remove1 (WORK_ITEM_FRAME f) ws) = remove1 (WORK_ITEM_FRAME f) (filter isFrame ws)"
  by (induction ws) (auto simp: isFrame_def)

lemma frame_mem_remove1:
  assumes "distinct (filter isFrame ws)"
  shows "WORK_ITEM_FRAME g \<in> set (remove1 (WORK_ITEM_FRAME f) ws)
      \<longleftrightarrow> g \<noteq> f \<and> WORK_ITEM_FRAME g \<in> set ws"
proof -
  have "WORK_ITEM_FRAME g \<in> set (remove1 (WORK_ITEM_FRAME f) ws)
      \<longleftrightarrow> WORK_ITEM_FRAME g \<in> set (filter isFrame (remove1 (WORK_ITEM_FRAME f) ws))"
    by (simp only: frame_mem_filter)
  also have "\<dots> \<longleftrightarrow> WORK_ITEM_FRAME g \<in> set (filter isFrame ws) - {WORK_ITEM_FRAME f}"
    by (simp only: filter_isFrame_remove1_frame set_remove1_eq [OF assms])
  also have "\<dots> \<longleftrightarrow> g \<noteq> f \<and> WORK_ITEM_FRAME g \<in> set ws"
    by (auto simp: isFrame_def)
  finally show ?thesis .
qed

lemma WorkItem_dequeue_linked:
  assumes "WorkItem_dequeue w s = Inr s'" and "ringLinked s"
  shows "ringLinked s'"
proof (cases w)
  case (WORK_ITEM_EVENT e)
  with assms(1) have "linkShape s' = linkShape s"
    by (auto simp: WorkItem_dequeue_def bindE_eq_Inr Let_def linkShape_def filter_isFrame_remove1_event)
  then show ?thesis using assms(2) by (rule linkShape_linked)
next
  case (WORK_ITEM_FRAME f)
  with assms(1) have f: "f < length (maFrames s)"
    and r: "mpWorkQueue s' = remove1 (WORK_ITEM_FRAME f) (mpWorkQueue s)"
    and p: "maFrames s' = (maFrames s)[f := (maFrames s ! f)\<lparr>mbQueued := False\<rparr>]"
    by (auto simp: WorkItem_dequeue_def bindE_eq_Inr Let_def validItem_def isQueued_def)
  from assms(2) have d0: "distinct (filter isFrame (mpWorkQueue s))"
    by (simp add: ringLinked_def)
  note mem = frame_mem_remove1 [OF d0]
  have d: "distinct (filter isFrame (mpWorkQueue s'))"
    using d0 by (simp add: r filter_isFrame_remove1_frame)
  have v: "\<forall>g. WORK_ITEM_FRAME g \<in> set (mpWorkQueue s') \<longrightarrow> g < length (maFrames s')"
    using assms(2) by (simp add: ringLinked_def r p mem)
  have q: "\<forall>g < length (maFrames s'). mbQueued (maFrames s' ! g) \<longleftrightarrow> WORK_ITEM_FRAME g \<in> set (mpWorkQueue s')"
  proof (intro allI impI)
    fix g assume "g < length (maFrames s')"
    then have g: "g < length (maFrames s)" by (simp add: p)
    show "mbQueued (maFrames s' ! g) \<longleftrightarrow> WORK_ITEM_FRAME g \<in> set (mpWorkQueue s')"
    proof (cases "g = f")
      case True
      with f show ?thesis by (simp add: r p mem)
    next
      case False
      with assms(2) g show ?thesis by (simp add: ringLinked_def r p mem)
    qed
  qed
  from d v q show ?thesis
    by (simp add: ringLinked_def)
qed

lemma map_mbQueued_update [simp]:
  "mbQueued (g (xs ! f)) = mbQueued (xs ! f) \<Longrightarrow> map mbQueued (xs[f := g (xs ! f)]) = map mbQueued xs"
  by (rule map_update_same)

lemma Frame_reset_queued [simp]: "mbQueued (Frame_reset b fr) = mbQueued fr"
  by (simp add: Frame_reset_def)

lemma Frame_invalidate_queued [simp]: "mbQueued (Frame_invalidate fr) = mbQueued fr"
  by (simp add: Frame_invalidate_def)

lemma Frame_set_queued: "Frame_set stack zorder i config allocOk fr = Inr (ok, fr') \<Longrightarrow> mbQueued fr' = mbQueued fr"
  by (auto simp: Frame_set_def bindE_eq_Inr Let_def split: if_splits)

lemma dropFrame_linked:
  assumes "dropFrame f s = Inr s'" and "ringLinked s"
  shows "ringLinked s'"
proof -
  from assms(1) obtain s1 where
    d: "WorkItem_dequeue (WORK_ITEM_FRAME f) (s\<lparr>mLastDroppedFrame := mFrameId (maFrames s ! f)\<rparr>) = Inr s1"
    and s': "s' = effect NotifyWorkConsumed (updFrame f (Frame_reset True)
                 (s1\<lparr>mQueuedFrames := mQueuedFrames s1 - 1, mQueuedWork := mQueuedWork s1 - 1,
                    mFramePoolUsed := mFramePoolUsed s1 - 1\<rparr>))"
    by (auto simp: dropFrame_def bindE_eq_Inr)
  have "ringLinked (s\<lparr>mLastDroppedFrame := mFrameId (maFrames s ! f)\<rparr>)"
    using assms(2) by (simp add: ringLinked_def)
  with d have "ringLinked s1"
    by (rule WorkItem_dequeue_linked)
  moreover have "linkShape s' = linkShape s1"
    by (simp add: s' linkShape_def)
  ultimately show ?thesis
    by (rule linkShape_linked [rotated])
qed

lemma dropRedundantLoop_linked:
  "dropRedundantLoop ws b s = Inr s' \<Longrightarrow> ringLinked s \<Longrightarrow> ringLinked s'"
proof (induction ws b s rule: dropRedundantLoop.induct)
  case (3 f ws b s)
  then show ?case
    by (auto simp: bindE_eq_Inr split: if_splits dest: dropFrame_linked)
qed simp_all

lemma doDropRedundantFrames_linked:
  "doDropRedundantFrames s = Inr s' \<Longrightarrow> ringLinked s \<Longrightarrow> ringLinked s'"
  by (auto simp: doDropRedundantFrames_def split: if_splits dest: dropRedundantLoop_linked)

lemma dropAllLoop_linked:
  "dropAllLoop ws s = Inr s' \<Longrightarrow> ringLinked s \<Longrightarrow> ringLinked s'"
proof (induction ws s rule: dropAllLoop.induct)
  case (3 f ws s)
  then show ?case
    by (auto simp: bindE_eq_Inr split: if_splits dest: dropFrame_linked)
qed simp_all

lemma dropAllFrames_linked:
  "dropAllFrames s = Inr s' \<Longrightarrow> ringLinked s \<Longrightarrow> ringLinked s'"
  by (auto simp: dropAllFrames_def bindE_eq_Inr dest: dropAllLoop_linked)

lemma limitUsedFrames_linked:
  "limitUsedFrames s = Inr s' \<Longrightarrow> ringLinked s \<Longrightarrow> ringLinked s'"
  by (auto simp: limitUsedFrames_def bindE_eq_Inr dest: doDropRedundantFrames_linked)

lemma findFree_linked:
  "findFree s = Inr (p, s') \<Longrightarrow> ringLinked s \<Longrightarrow> ringLinked s'"
  by (auto simp: findFree_def bindE_eq_Inr split: sum.splits option.splits dest: dropFrame_linked)

lemma invalidateLoop_shape: "linkShape (invalidateLoop ws s) = linkShape s"
proof (induction ws s rule: invalidateLoop.induct)
  case (3 f ws s)
  then show ?case
    by (simp add: linkShape_updFrame)
qed simp_all

lemma doInvalidateFrames_linked:
  "doInvalidateFrames s = Inr s' \<Longrightarrow> ringLinked s \<Longrightarrow> ringLinked s'"
  by (auto simp: doInvalidateFrames_def bindE_eq_Inr Let_def intro: linkShape_linked [OF invalidateLoop_shape])

lemma signalWork_shape: "signalWork s = Inr s' \<Longrightarrow> linkShape s' = linkShape s"
  by (auto simp: signalWork_def Worker_signalWork_def bindE_eq_Inr linkShape_def split: option.splits)

lemma startWorker_shape: "linkShape (startWorker s) = linkShape s"
  by (simp add: startWorker_def linkShape_def)

lemma doQueueWork_linked:
  assumes "doQueueWork w s = Inr s'" and "ringLinked s"
  shows "ringLinked s'"
proof -
  from assms(1) obtain s1 where q: "WorkItem_queue w s = Inr s1"
    and rest: "(let s = s1\<lparr>mQueuedWork := mQueuedWork s1 + 1\<rparr>;
           s = (if isFrame w then s\<lparr>mQueuedFrames := mQueuedFrames s + 1\<rparr> else s);
           s = (if mpWorker s = None then startWorker s else s)
       in bindE (if mpWorker s \<noteq> None then signalWork s else Inr s) (\<lambda>s.
          bindE (doValidateQueue s) (\<lambda>_. Inr s))) = Inr s'"
    by (auto simp: doQueueWork_def bindE_eq_Inr)
  from q assms(2) have "ringLinked s1"
    by (rule WorkItem_queue_linked)
  moreover from rest have "linkShape s' = linkShape s1"
    by (auto simp: Let_def bindE_eq_Inr startWorker_def linkShape_def split: if_splits
        dest!: signalWork_shape)
  ultimately show ?thesis
    by (rule linkShape_linked [rotated])
qed

lemma queueEvent_linked:
  "queueEvent e s = Inr (r, s') \<Longrightarrow> ringLinked s \<Longrightarrow> ringLinked s'"
  by (auto simp: queueEvent_def bindE_eq_Inr dest: doQueueWork_linked)

lemma queueFrame_linked:
  assumes "queueFrame stack zorder i config allocOk s = Inr (r, s')" and "ringLinked s"
  shows "ringLinked s'"
proof -
  from assms(1) obtain s1 pNew s2 where
    lim: "limitUsedFrames s = Inr s1" and ff: "findFree s1 = Inr (pNew, s2)"
    by (auto simp: queueFrame_def bindE_eq_Inr)
  have l2: "ringLinked s2"
    using ff limitUsedFrames_linked [OF lim assms(2)] by (rule findFree_linked)
  show ?thesis
  proof (cases pNew)
    case None
    with assms(1) lim ff l2 show ?thesis
      by (auto simp: queueFrame_def bindE_eq_Inr)
  next
    case (Some f)
    define s3 where "s3 = (let s = s2\<lparr>mFramePoolUsed := mFramePoolUsed s2 + 1\<rparr>
       in if mFramePoolUsed s > mFramePoolPeak s then s\<lparr>mFramePoolPeak := mFramePoolUsed s\<rparr> else s)"
    have l3: "ringLinked s3" and fr3: "maFrames s3 = maFrames s2"
      using l2 by (simp_all add: s3_def Let_def ringLinked_def)
    from assms(1) lim ff Some obtain ok fr where
      fs: "Frame_set stack zorder i config allocOk (maFrames s3 ! f) = Inr (ok, fr)" and
      rest: "(let s = updFrame f (\<lambda>_. fr) s3
              in if \<not> ok then Inr (- ENOSYS, s)
                 else let s = updFrame f (\<lambda>fr. fr\<lparr>mEffectiveFrame := i\<rparr>) s;
                          s = s\<lparr>mLastQueuedFrame := i\<rparr>
                      in bindE (doQueueWork (WORK_ITEM_FRAME f) s) (\<lambda>s. Inr (OK, s))) = Inr (r, s')"
      by (auto simp: queueFrame_def bindE_eq_Inr s3_def Let_def split: if_splits)
    have sh4: "linkShape (updFrame f (\<lambda>_. fr) s3) = linkShape s3"
      using Frame_set_queued [OF fs] by (intro linkShape_updFrame) simp
    have l4: "ringLinked (updFrame f (\<lambda>_. fr) s3)"
      using sh4 l3 by (rule linkShape_linked)
    show ?thesis
    proof (cases ok)
      case False
      with rest l4 show ?thesis by (simp add: Let_def)
    next
      case True
      define s5 where "s5 = (updFrame f (\<lambda>fr. fr\<lparr>mEffectiveFrame := i\<rparr>) (updFrame f (\<lambda>_. fr) s3))\<lparr>mLastQueuedFrame := i\<rparr>"
      have lq: "linkShape (t\<lparr>mLastQueuedFrame := i\<rparr>) = linkShape t" for t
        by (simp add: linkShape_def)
      have "linkShape s5 = linkShape (updFrame f (\<lambda>_. fr) s3)"
        unfolding s5_def lq by (rule linkShape_updFrame) simp
      then have l5: "ringLinked s5"
        using l4 by (rule linkShape_linked)
      from rest True have "doQueueWork (WORK_ITEM_FRAME f) s5 = Inr s'"
        by (auto simp: Let_def bindE_eq_Inr s5_def)
      then show ?thesis
        using l5 by (rule doQueueWork_linked)
    qed
  qed
qed

lemma setEffectiveFrameLast_shape: "linkShape (setEffectiveFrameLast i s) = linkShape s"
proof (cases "last (mpWorkQueue s)")
  case (WORK_ITEM_FRAME f)
  then show ?thesis
    by (simp add: setEffectiveFrameLast_def linkShape_updFrame)
next
  case (WORK_ITEM_EVENT e)
  have "filter isFrame (butlast ws) = filter isFrame ws" if "ws = [] \<or> \<not> isFrame (last ws)" for ws
    using that by (induction ws) (auto split: if_splits)
  moreover have "mpWorkQueue s = [] \<or> \<not> isFrame (last (mpWorkQueue s))"
    using WORK_ITEM_EVENT by (simp add: isFrame_def)
  ultimately show ?thesis
    using WORK_ITEM_EVENT by (simp add: setEffectiveFrameLast_def linkShape_def isFrame_def)
qed

lemma queueDrop_linked:
  assumes "queueDrop i s = Inr s'" and "ringLinked s"
  shows "ringLinked s'"
proof -
  from assms(1) have "linkShape s' = linkShape s"
    using setEffectiveFrameLast_shape [of i s]
    by (auto simp: queueDrop_def bindE_eq_Inr Let_def doAdvanceIssuedFrame_def linkShape_def
        split: if_splits)
  then show ?thesis
    using assms(2) by (rule linkShape_linked)
qed

lemma doReleaseFrame_linked:
  assumes "doReleaseFrame f s = Inr s'" and "ringLinked s"
  shows "ringLinked s'"
proof -
  from assms(1) have "linkShape s' = linkShape s"
    by (auto simp: doReleaseFrame_def bindE_eq_Inr Let_def linkShape_def)
  then show ?thesis
    using assms(2) by (rule linkShape_linked)
qed

lemma lockFrameForDisplay_shape: "linkShape (lockFrameForDisplay f s) = linkShape s"
  by (simp add: lockFrameForDisplay_def linkShape_def)

lemma unlockFrameForDisplay_shape: "linkShape (unlockFrameForDisplay f s) = linkShape s"
  by (simp add: unlockFrameForDisplay_def linkShape_def)

lemma doConsumeFrame_flip_linked:
  assumes "doConsumeFrame_flip f s = Inr s'" and "ringLinked s"
  shows "ringLinked s'"
proof -
  from assms(1) obtain s1 where d: "WorkItem_dequeue (WORK_ITEM_FRAME f) s = Inr s1"
    and sh: "linkShape s' = linkShape s1"
    by (auto simp: doConsumeFrame_flip_def bindE_eq_Inr Let_def linkShape_def)
  from d assms(2) have "ringLinked s1"
    by (rule WorkItem_dequeue_linked)
  with sh show ?thesis
    by (rule linkShape_linked)
qed

lemma doConsumeFrame_start_linked:
  assumes "doConsumeFrame_start f s = Inr s'" and "ringLinked s"
  shows "ringLinked s'"
proof -
  have l: "ringLinked (lockFrameForDisplay f s)"
    using lockFrameForDisplay_shape assms(2) by (rule linkShape_linked)
  from assms(1) have "s' = (lockFrameForDisplay f s)\<lparr>mPhase := PhaseWaitRendering f\<rparr>
      \<or> doConsumeFrame_flip f (lockFrameForDisplay f s) = Inr s'"
    by (auto simp: doConsumeFrame_start_def bindE_eq_Inr Let_def split: if_splits)
  then show ?thesis
  proof
    assume "s' = (lockFrameForDisplay f s)\<lparr>mPhase := PhaseWaitRendering f\<rparr>"
    with l show ?thesis by (simp add: ringLinked_def)
  next
    assume "doConsumeFrame_flip f (lockFrameForDisplay f s) = Inr s'"
    then show ?thesis using l by (rule doConsumeFrame_flip_linked)
  qed
qed

lemma doConsumeFrame_synced_linked:
  assumes "doConsumeFrame_synced f s = Inr s'" and "ringLinked s"
  shows "ringLinked s'"
proof -
  from assms(1) obtain s1 where
    d: "doDropRedundantFrames (unlockFrameForDisplay f s) = Inr s1" and
    rest: "(case mpWorkQueue s1 of
         WORK_ITEM_FRAME pFrame # ws \<Rightarrow>
           let s = lockFrameForDisplay pFrame s1
           in bindE (HWCASSERT (mType (maFrames s ! pFrame) = eFT_DISPLAY_QUEUE)) (\<lambda>_.
                doConsumeFrame_flip pFrame s)
       | _ \<Rightarrow> Inr (s1\<lparr>mPhase := PhaseIdle\<rparr>)) = Inr s'"
    by (auto simp: doConsumeFrame_synced_def bindE_eq_Inr)
  have "ringLinked (unlockFrameForDisplay f s)"
    using unlockFrameForDisplay_shape assms(2) by (rule linkShape_linked)
  with d have l1: "ringLinked s1"
    by (rule doDropRedundantFrames_linked)
  have idle: "ringLinked (s1\<lparr>mPhase := PhaseIdle\<rparr>)"
    using l1 by (simp add: ringLinked_def)
  have lk: "ringLinked (lockFrameForDisplay g s1)" for g
    using lockFrameForDisplay_shape l1 by (rule linkShape_linked)
  from rest idle lk show ?thesis
    by (auto simp: bindE_eq_Inr Let_def split: list.splits WorkItem.splits
        dest: doConsumeFrame_flip_linked)
qed

lemma doConsumeEvent_retire_linked:
  assumes "doConsumeEvent_retire s = Inr s'" and "ringLinked s"
  shows "ringLinked s'"
proof -
  from assms(1) obtain e s1 where d: "WorkItem_dequeue (WORK_ITEM_EVENT e) s = Inr s1"
    and sh: "linkShape s' = linkShape s1"
    by (auto simp: doConsumeEvent_retire_def bindE_eq_Inr Let_def doAdvanceIssuedFrame_def
        linkShape_def split: list.splits WorkItem.splits)
  from d assms(2) have "ringLinked s1"
    by (rule WorkItem_dequeue_linked)
  with sh show ?thesis
    by (rule linkShape_linked)
qed

lemma consumeWork_section_linked:
  assumes "consumeWork_section s = Inr s'" and "ringLinked s"
  shows "ringLinked s'"
proof (cases "mPhase s")
  case PhaseIdle
  have ev: "doConsumeEvent_issue e s = Inr s' \<Longrightarrow> ringLinked s'" for e
    using assms(2) by (auto simp: doConsumeEvent_issue_def bindE_eq_Inr ringLinked_def)
  from PhaseIdle assms show ?thesis
    by (auto simp: consumeWork_section_def doConsumeWork_start_def bindE_eq_Inr
        split: list.splits WorkItem.splits dest: doConsumeFrame_start_linked ev)
next
  case PhaseEventIssued
  with assms show ?thesis
    by (auto simp: consumeWork_section_def dest: doConsumeEvent_retire_linked)
next
  case (PhaseWaitRendering f)
  with assms show ?thesis
    by (auto simp: consumeWork_section_def dest: doConsumeFrame_synced_linked)
next
  case (PhaseFlipIssued i)
  with assms show ?thesis
    by (auto simp: consumeWork_section_def doConsumeFrame_retire_def doAdvanceIssuedFrame_def
        bindE_eq_Inr ringLinked_def)
qed

lemma flush_linked:
  assumes "flush tid i t s = Some (Inr s')" and "ringLinked s"
  shows "ringLinked s'"
proof -
  have "ringLinked (effect SyncFlip s)"
    using assms(2) by (simp add: ringLinked_def)
  with assms show ?thesis
    by (auto simp: flush_def flush_bFlushed_eq split: if_splits dest: doInvalidateFrames_linked)
qed

lemma perform_linked:
  assumes "perform op s = Some (Inr s')" and "ringLinked s"
  shows "ringLinked s'"
proof (cases op)
  case (OpInit n)
  with assms show ?thesis by (auto simp: perform_def init_def ringLinked_def)
next
  case (OpQueueEvent e)
  with assms show ?thesis by (auto simp: perform_def bindE_eq_Inr dest: queueEvent_linked)
next
  case (OpQueueFrame stack zorder i config allocOk)
  with assms show ?thesis by (auto simp: perform_def bindE_eq_Inr dest: queueFrame_linked)
next
  case (OpQueueDrop i)
  with assms show ?thesis by (auto simp: perform_def dest: queueDrop_linked)
next
  case OpDropAllFrames
  with assms show ?thesis by (auto simp: perform_def dest: dropAllFrames_linked)
next
  case OpDropRedundantFrames
  with assms show ?thesis
    by (auto simp: perform_def dropRedundantFrames_def dest: doDropRedundantFrames_linked)
next
  case OpConsumeWork
  with assms show ?thesis by (auto simp: perform_def dest: consumeWork_section_linked)
next
  case (OpFlush tid i t)
  with assms show ?thesis by (auto simp: perform_def dest: flush_linked)
next
  case OpConsumerBlocked
  with assms show ?thesis by (auto simp: perform_def consumerBlocked_def ringLinked_def)
next
  case OpConsumerUnblocked
  with assms show ?thesis
    by (auto simp: perform_def consumerUnblocked_def bindE_eq_Inr ringLinked_def)
next
  case OpNotifyReady
  with assms show ?thesis
    by (auto simp: perform_def notifyReady_def split: if_splits
        dest!: signalWork_shape intro: linkShape_linked)
next
  case (OpReleaseFrame f)
  with assms show ?thesis by (auto simp: perform_def releaseFrame_def dest: doReleaseFrame_linked)
qed

lemma run_linked: "ringLinked s \<Longrightarrow> t \<in> set (run ops s) \<Longrightarrow> ringLinked t"
proof (induction ops arbitrary: s)
  case Nil
  then show ?case by simp
next
  case (Cons op ops)
  then show ?case
    by (auto split: option.splits sum.splits dest: perform_linked)
qed

lemma ringLinked_tail_valid:
  "ringLinked s \<Longrightarrow> mpWorkQueue s \<noteq> [] \<Longrightarrow> validItem s (last (mpWorkQueue s))"
  by (cases "last (mpWorkQueue s)") (auto simp: ringLinked_def validItem_def dest: last_in_set)

lemma ringLinked_distinct: "ringLinked s \<Longrightarrow> distinct (filter isFrame (mpWorkQueue s))"
  by (simp add: ringLinked_def)

subsection \<open>The pool accounting\<close>

text \<open>
  The accounting on the operations whose layer allocation does not fail.
  \<open>mFramePoolUsed\<close> is the number of frames that are linked and not locked plus
  \<open>mFramesLockedForDisplay\<close>: the head frame that the worker has locked while it waits
  for the rendering is linked and locked, and counted once. With the links of the ring,
  the type of the pool frames and the window in which a linked frame is locked this is
  \<open>poolInv\<close>. It holds in a new queue (\<open>poolInv_new\<close>), every operation of a regular run
  keeps it (\<open>perform_poolInv\<close>, \<open>run_poolInv\<close>), and where no linked frame is locked it is
  the accounting of the spec (\<open>poolInv_accounted\<close>). The return of \<^verbatim>\<open>queueFrame\<close> after a
  failed \<^verbatim>\<open>Frame::set\<close> is the one exit that does not keep it.
\<close>

lemma length_filter_remove1_in:
  "x \<in> set ws \<Longrightarrow> P x \<Longrightarrow> Suc (length (filter P (remove1 x ws))) = length (filter P ws)"
  by (induction ws) auto

lemma filter_remove1_out: "\<not> P x \<Longrightarrow> filter P (remove1 x ws) = filter P ws"
  by (induction ws) auto

lemma length_filter_flip:
  assumes "distinct (filter isFrame ws)" and "isFrame x" and "x \<in> set ws"
    and "\<forall>w \<in> set ws. w \<noteq> x \<longrightarrow> P' w = P w" and "P x" and "\<not> P' x"
  shows "Suc (length (filter P' ws)) = length (filter P ws)"
  using assms
proof (induction ws)
  case Nil
  then show ?case by simp
next
  case (Cons w ws)
  show ?case
  proof (cases "w = x")
    case True
    with Cons.prems have "x \<notin> set ws"
      by auto
    with Cons.prems(4) have "filter P' ws = filter P ws"
      by (intro filter_cong) auto
    with True Cons.prems show ?thesis by simp
  next
    case False
    with Cons.prems have "Suc (length (filter P' ws)) = length (filter P ws)"
      by (intro Cons.IH) (auto split: if_splits)
    with False Cons.prems(4) show ?thesis by simp
  qed
qed

lemma unlockedFrame_frame [simp]:
  "unlockedFrame pool (WORK_ITEM_FRAME f) \<longleftrightarrow> \<not> mbLockedForDisplay (pool ! f)"
  by (simp add: unlockedFrame_def)

lemma unlockedFrame_event [simp]: "\<not> unlockedFrame pool (WORK_ITEM_EVENT e)"
  by (simp add: unlockedFrame_def)

lemma filter_unlockedFrame_frames:
  "filter (unlockedFrame pool) (filter isFrame ws) = filter (unlockedFrame pool) ws"
  by (induction ws) (auto simp: isFrame_def split: WorkItem.splits)

lemma count_unlocked_cong:
  assumes fr: "filter isFrame ws' = filter isFrame ws"
    and lk: "\<And>f. WORK_ITEM_FRAME f \<in> set ws \<Longrightarrow>
           mbLockedForDisplay (pool' ! f) = mbLockedForDisplay (pool ! f)"
  shows "length (filter (unlockedFrame pool') ws') = length (filter (unlockedFrame pool) ws)"
proof -
  have "unlockedFrame pool' w = unlockedFrame pool w" if "w \<in> set (filter isFrame ws)" for w
  proof (cases w)
    case (WORK_ITEM_FRAME f)
    with that lk show ?thesis by simp
  next
    case (WORK_ITEM_EVENT e)
    then show ?thesis by simp
  qed
  then have "filter (unlockedFrame pool') (filter isFrame ws) = filter (unlockedFrame pool) (filter isFrame ws)"
    by (intro filter_cong) simp_all
  then have "filter (unlockedFrame pool') (filter isFrame ws') = filter (unlockedFrame pool) (filter isFrame ws)"
    by (simp only: fr)
  then show ?thesis
    by (simp only: filter_unlockedFrame_frames)
qed

lemma unlockedQueued_cong:
  assumes "filter isFrame (mpWorkQueue s') = filter isFrame (mpWorkQueue s)"
    and "\<And>f. WORK_ITEM_FRAME f \<in> set (mpWorkQueue s) \<Longrightarrow>
           mbLockedForDisplay (maFrames s' ! f) = mbLockedForDisplay (maFrames s ! f)"
  shows "unlockedQueued s' = unlockedQueued s"
  unfolding unlockedQueued_def using assms by (rule count_unlocked_cong)

lemma keeps_refl [simp]: "keeps s s"
  by (simp add: keeps_def)

lemma keeps_trans: "keeps s s1 \<Longrightarrow> keeps s1 s2 \<Longrightarrow> keeps s s2"
  unfolding keeps_def by auto

lemma keeps_poolInv: "keeps s s' \<Longrightarrow> poolInv s \<Longrightarrow> poolInv s'"
  unfolding keeps_def poolInv_def lockedWaiting_def by auto

lemma keeps_none_locked: "keeps s s' \<Longrightarrow> poolCore s \<Longrightarrow> lockedQueued s = {} \<Longrightarrow> lockedQueued s' = {}"
  unfolding keeps_def by blast

lemma map_eq_nth: "map h xs = map h ys \<Longrightarrow> f < length ys \<Longrightarrow> h (xs ! f) = h (ys ! f)"
  by (metis length_map nth_map)

lemma acctShape_keeps:
  assumes "acctShape s' = acctShape s"
  shows "keeps s s'"
proof -
  from assms have sh: "linkShape s' = linkShape s"
    and lk: "map mbLockedForDisplay (maFrames s') = map mbLockedForDisplay (maFrames s)"
    and ty: "map mType (maFrames s') = map mType (maFrames s)"
    and used: "mFramePoolUsed s' = mFramePoolUsed s"
    and cnt: "mFramesLockedForDisplay s' = mFramesLockedForDisplay s"
    and ph: "mPhase s' = mPhase s"
    by (simp_all add: acctShape_def)
  from sh have fr: "filter isFrame (mpWorkQueue s') = filter isFrame (mpWorkQueue s)"
    by (simp add: linkShape_def)
  from ty have len: "length (maFrames s') = length (maFrames s)"
    by (rule map_eq_imp_length_eq)
  have mem: "WORK_ITEM_FRAME f \<in> set (mpWorkQueue s') \<longleftrightarrow> WORK_ITEM_FRAME f \<in> set (mpWorkQueue s)" for f
    using fr by (metis frame_mem_filter)
  have core: "poolCore s' \<and> lockedQueued s' \<subseteq> lockedQueued s" if c: "poolCore s"
  proof -
    from c have l: "ringLinked s" and t: "poolTyped s" and pc: "poolCounted s"
      by (simp_all add: poolCore_def)
    have inr: "f < length (maFrames s)" if "WORK_ITEM_FRAME f \<in> set (mpWorkQueue s)" for f
      using l that unfolding ringLinked_def by blast
    have lkf: "mbLockedForDisplay (maFrames s' ! f) = mbLockedForDisplay (maFrames s ! f)"
      if "WORK_ITEM_FRAME f \<in> set (mpWorkQueue s)" for f
      using lk inr [OF that] by (rule map_eq_nth)
    have l': "ringLinked s'"
      using sh l by (rule linkShape_linked)
    have t': "poolTyped s'"
      unfolding poolTyped_def
    proof (intro allI impI)
      fix f assume "f < length (maFrames s')"
      then have f: "f < length (maFrames s)" by (simp add: len)
      with t map_eq_nth [OF ty f] show "mType (maFrames s' ! f) = eFT_DISPLAY_QUEUE"
        by (simp add: poolTyped_def)
    qed
    have "unlockedQueued s' = unlockedQueued s"
      using fr lkf by (rule unlockedQueued_cong)
    with pc have pc': "poolCounted s'"
      by (simp add: poolCounted_def used cnt)
    have "lockedQueued s' \<subseteq> lockedQueued s"
      by (auto simp: lockedQueued_def mem lkf)
    with l' t' pc' show ?thesis
      by (simp add: poolCore_def)
  qed
  with ph show ?thesis
    by (simp add: keeps_def)
qed

lemma acctShape_effect [simp]: "acctShape (effect e s) = acctShape s"
  by (simp add: acctShape_def)

lemma acctShape_updFrame:
  assumes "mbQueued (g (maFrames s ! f)) = mbQueued (maFrames s ! f)"
    and "mbLockedForDisplay (g (maFrames s ! f)) = mbLockedForDisplay (maFrames s ! f)"
    and "mType (g (maFrames s ! f)) = mType (maFrames s ! f)"
  shows "acctShape (updFrame f g s) = acctShape s"
proof -
  have "linkShape (updFrame f g s) = linkShape s"
    using assms(1) by (rule linkShape_updFrame)
  moreover have "map mbLockedForDisplay (maFrames (updFrame f g s)) = map mbLockedForDisplay (maFrames s)"
    using assms(2) by (simp add: updFrame_def map_update_same)
  moreover have "map mType (maFrames (updFrame f g s)) = map mType (maFrames s)"
    using assms(3) by (simp add: updFrame_def map_update_same)
  ultimately show ?thesis
    by (simp add: acctShape_def)
qed

lemma dropFrame_phase: "dropFrame f s = Inr s' \<Longrightarrow> mPhase s' = mPhase s"
  by (auto simp: dropFrame_def WorkItem_dequeue_def bindE_eq_Inr Let_def)

lemma dropFrame_keeps:
  assumes d: "dropFrame f s = Inr s'"
  shows "keeps s s'"
proof -
  note r = dropFrame_result [OF d]
  from r have fl: "f < length (maFrames s)" and q: "mbQueued (maFrames s ! f)"
    and nl: "\<not> mbLockedForDisplay (maFrames s ! f)"
    and ring': "mpWorkQueue s' = remove1 (WORK_ITEM_FRAME f) (mpWorkQueue s)"
    and pool': "maFrames s' = (maFrames s)[f := Frame_reset True ((maFrames s ! f)\<lparr>mbQueued := False\<rparr>)]"
    and used': "mFramePoolUsed s' = mFramePoolUsed s - 1"
    and locked': "mFramesLockedForDisplay s' = mFramesLockedForDisplay s"
    by blast+
  have other: "maFrames s' ! g = maFrames s ! g" if "g \<noteq> f" for g
    unfolding pool' using that by simp
  have core: "poolCore s' \<and> lockedQueued s' \<subseteq> lockedQueued s" if c: "poolCore s"
  proof -
    from c have l: "ringLinked s" and ty: "poolTyped s" and pc: "poolCounted s"
      by (simp_all add: poolCore_def)
    from l have dist: "distinct (filter isFrame (mpWorkQueue s))"
      by (simp add: ringLinked_def)
    from l fl q have inring: "WORK_ITEM_FRAME f \<in> set (mpWorkQueue s)"
      unfolding ringLinked_def by blast
    have mem: "WORK_ITEM_FRAME g \<in> set (mpWorkQueue s') \<longleftrightarrow> g \<noteq> f \<and> WORK_ITEM_FRAME g \<in> set (mpWorkQueue s)" for g
      unfolding ring' by (rule frame_mem_remove1 [OF dist])
    have l': "ringLinked s'"
      using d l by (rule dropFrame_linked)
    have ty': "poolTyped s'"
      unfolding poolTyped_def
    proof (intro allI impI)
      fix g assume "g < length (maFrames s')"
      then have g: "g < length (maFrames s)" by (simp add: pool')
      show "mType (maFrames s' ! g) = eFT_DISPLAY_QUEUE"
      proof (cases "g = f")
        case True
        with g ty show ?thesis by (simp add: pool' poolTyped_def Frame_reset_def)
      next
        case False
        with g ty show ?thesis by (simp add: other poolTyped_def)
      qed
    qed
    have lq: "lockedQueued s' \<subseteq> lockedQueued s"
      by (auto simp: lockedQueued_def mem other)
    have "unlockedFrame (maFrames s') w = unlockedFrame (maFrames s) w" if "w \<in> set (mpWorkQueue s')" for w
    proof (cases w)
      case (WORK_ITEM_FRAME g)
      with that have "g \<noteq> f" by (simp add: mem)
      with WORK_ITEM_FRAME show ?thesis by (simp add: other)
    next
      case (WORK_ITEM_EVENT e)
      then show ?thesis by simp
    qed
    then have "filter (unlockedFrame (maFrames s')) (mpWorkQueue s')
        = filter (unlockedFrame (maFrames s)) (mpWorkQueue s')"
      by (intro filter_cong) simp_all
    then have "unlockedQueued s' = length (filter (unlockedFrame (maFrames s)) (remove1 (WORK_ITEM_FRAME f) (mpWorkQueue s)))"
      by (simp add: unlockedQueued_def ring')
    moreover have "Suc (length (filter (unlockedFrame (maFrames s)) (remove1 (WORK_ITEM_FRAME f) (mpWorkQueue s))))
        = unlockedQueued s"
      unfolding unlockedQueued_def using inring nl by (intro length_filter_remove1_in) simp_all
    ultimately have "unlockedQueued s = Suc (unlockedQueued s')"
      by simp
    then have "(of_nat (unlockedQueued s) :: 32 word) = of_nat (unlockedQueued s') + 1"
      by simp
    with pc have "poolCounted s'"
      by (simp add: poolCounted_def used' locked')
    with l' ty' lq show ?thesis
      by (simp add: poolCore_def)
  qed
  with dropFrame_phase [OF d] show ?thesis
    by (simp add: keeps_def)
qed

lemma dropRedundantLoop_keeps: "dropRedundantLoop ws b s = Inr s' \<Longrightarrow> keeps s s'"
proof (induction ws b s rule: dropRedundantLoop.induct)
  case (3 f ws b s)
  then show ?case
    by (auto simp: bindE_eq_Inr split: if_splits intro: keeps_trans [OF dropFrame_keeps])
qed simp_all

lemma doDropRedundantFrames_keeps: "doDropRedundantFrames s = Inr s' \<Longrightarrow> keeps s s'"
  by (auto simp: doDropRedundantFrames_def split: if_splits dest: dropRedundantLoop_keeps)

lemma dropAllLoop_keeps: "dropAllLoop ws s = Inr s' \<Longrightarrow> keeps s s'"
proof (induction ws s rule: dropAllLoop.induct)
  case (3 f ws s)
  then show ?case
    by (auto simp: bindE_eq_Inr split: if_splits intro: keeps_trans [OF dropFrame_keeps])
qed simp_all

lemma dropAllFrames_keeps: "dropAllFrames s = Inr s' \<Longrightarrow> keeps s s'"
  by (auto simp: dropAllFrames_def bindE_eq_Inr dest: dropAllLoop_keeps)

lemma limitUsedFrames_keeps: "limitUsedFrames s = Inr s' \<Longrightarrow> keeps s s'"
  by (auto simp: limitUsedFrames_def bindE_eq_Inr dest: doDropRedundantFrames_keeps)

lemma findFree_keeps: "findFree s = Inr (p, s') \<Longrightarrow> keeps s s'"
  by (auto simp: findFree_def bindE_eq_Inr split: sum.splits option.splits dest: dropFrame_keeps)

lemma invalidateLoop_acctShape: "acctShape (invalidateLoop ws s) = acctShape s"
proof (induction ws s rule: invalidateLoop.induct)
  case (3 f ws s)
  then show ?case
    by (simp add: acctShape_updFrame Frame_invalidate_def)
qed simp_all

lemma doInvalidateFrames_keeps: "doInvalidateFrames s = Inr s' \<Longrightarrow> keeps s s'"
  by (auto simp: doInvalidateFrames_def bindE_eq_Inr Let_def intro: acctShape_keeps [OF invalidateLoop_acctShape])

lemma signalWork_acctShape: "signalWork s = Inr s' \<Longrightarrow> acctShape s' = acctShape s"
  by (auto simp: signalWork_def Worker_signalWork_def bindE_eq_Inr acctShape_def linkShape_def split: option.splits)

lemma flush_keeps:
  assumes "flush tid i t s = Some (Inr s')"
  shows "keeps s s'"
proof -
  have "keeps s (effect SyncFlip s)"
    by (rule acctShape_keeps) simp
  with assms show ?thesis
    by (auto simp: flush_def flush_bFlushed_eq split: if_splits dest: doInvalidateFrames_keeps)
qed

lemma setEffectiveFrameLast_acctShape: "acctShape (setEffectiveFrameLast i s) = acctShape s"
proof (cases "last (mpWorkQueue s)")
  case (WORK_ITEM_FRAME f)
  then show ?thesis
    by (simp add: setEffectiveFrameLast_def acctShape_updFrame)
next
  case (WORK_ITEM_EVENT e)
  then have "maFrames (setEffectiveFrameLast i s) = maFrames s"
    "mFramePoolUsed (setEffectiveFrameLast i s) = mFramePoolUsed s"
    "mFramesLockedForDisplay (setEffectiveFrameLast i s) = mFramesLockedForDisplay s"
    "mPhase (setEffectiveFrameLast i s) = mPhase s"
    by (simp_all add: setEffectiveFrameLast_def)
  with setEffectiveFrameLast_shape [of i s] show ?thesis
    by (simp add: acctShape_def)
qed

lemma queueDrop_keeps:
  assumes "queueDrop i s = Inr s'"
  shows "keeps s s'"
proof -
  from assms have "acctShape s' = acctShape s"
    using setEffectiveFrameLast_acctShape [of i s]
    by (auto simp: queueDrop_def bindE_eq_Inr Let_def doAdvanceIssuedFrame_def acctShape_def linkShape_def
        split: if_splits)
  then show ?thesis
    by (rule acctShape_keeps)
qed

lemma doQueueWork_acctShape:
  assumes "doQueueWork w s = Inr s'"
  shows "\<exists>s1. WorkItem_queue w s = Inr s1 \<and> acctShape s' = acctShape s1"
proof -
  from assms obtain s1 where q: "WorkItem_queue w s = Inr s1"
    and rest: "(let s = s1\<lparr>mQueuedWork := mQueuedWork s1 + 1\<rparr>;
           s = (if isFrame w then s\<lparr>mQueuedFrames := mQueuedFrames s + 1\<rparr> else s);
           s = (if mpWorker s = None then startWorker s else s)
       in bindE (if mpWorker s \<noteq> None then signalWork s else Inr s) (\<lambda>s.
          bindE (doValidateQueue s) (\<lambda>_. Inr s))) = Inr s'"
    by (auto simp: doQueueWork_def bindE_eq_Inr)
  from rest have "acctShape s' = acctShape s1"
    by (auto simp: Let_def bindE_eq_Inr startWorker_def acctShape_def linkShape_def split: if_splits
        dest!: signalWork_acctShape)
  with q show ?thesis
    by blast
qed

lemma WorkItem_queue_event_acctShape:
  "WorkItem_queue (WORK_ITEM_EVENT e) s = Inr s' \<Longrightarrow> acctShape s' = acctShape s"
  by (auto simp: WorkItem_queue_def bindE_eq_Inr Let_def acctShape_def linkShape_def isFrame_def)

lemma queueEvent_keeps:
  assumes "queueEvent e s = Inr (r, s')"
  shows "keeps s s'"
proof -
  from assms obtain w where "doQueueWork (WORK_ITEM_EVENT w) s = Inr s'"
    by (auto simp: queueEvent_def bindE_eq_Inr)
  from doQueueWork_acctShape [OF this] obtain s1 where
    "WorkItem_queue (WORK_ITEM_EVENT w) s = Inr s1" and "acctShape s' = acctShape s1"
    by blast
  then have "acctShape s' = acctShape s"
    by (simp add: WorkItem_queue_event_acctShape)
  then show ?thesis
    by (rule acctShape_keeps)
qed

lemma WorkItem_queue_frame_keeps:
  assumes q: "WorkItem_queue (WORK_ITEM_FRAME f) s5 = Inr s6"
    and sh: "acctShape s5 = acctShape (s2\<lparr>mFramePoolUsed := mFramePoolUsed s2 + 1\<rparr>)"
    and nl: "\<not> mbLockedForDisplay (maFrames s2 ! f)"
  shows "keeps s2 s6"
proof -
  from q have f5: "f < length (maFrames s5)"
    and ring6: "mpWorkQueue s6 = mpWorkQueue s5 @ [WORK_ITEM_FRAME f]"
    and pool6: "maFrames s6 = (maFrames s5)[f := (maFrames s5 ! f)\<lparr>mbQueued := True\<rparr>]"
    and used6: "mFramePoolUsed s6 = mFramePoolUsed s5"
    and cnt6: "mFramesLockedForDisplay s6 = mFramesLockedForDisplay s5"
    and ph6: "mPhase s6 = mPhase s5"
    by (auto simp: WorkItem_queue_def bindE_eq_Inr Let_def validItem_def)
  from sh have lsh: "linkShape s5 = linkShape s2"
    and lk: "map mbLockedForDisplay (maFrames s5) = map mbLockedForDisplay (maFrames s2)"
    and ty: "map mType (maFrames s5) = map mType (maFrames s2)"
    and used5: "mFramePoolUsed s5 = mFramePoolUsed s2 + 1"
    and cnt5: "mFramesLockedForDisplay s5 = mFramesLockedForDisplay s2"
    and ph5: "mPhase s5 = mPhase s2"
    by (simp_all add: acctShape_def linkShape_def)
  from lsh have fr: "filter isFrame (mpWorkQueue s5) = filter isFrame (mpWorkQueue s2)"
    by (simp add: linkShape_def)
  from ty have len: "length (maFrames s5) = length (maFrames s2)"
    by (rule map_eq_imp_length_eq)
  have mem: "WORK_ITEM_FRAME g \<in> set (mpWorkQueue s5) \<longleftrightarrow> WORK_ITEM_FRAME g \<in> set (mpWorkQueue s2)" for g
    using fr by (metis frame_mem_filter)
  have lk6: "mbLockedForDisplay (maFrames s6 ! g) = mbLockedForDisplay (maFrames s2 ! g)"
    if "g < length (maFrames s2)" for g
  proof -
    have "mbLockedForDisplay (maFrames s6 ! g) = mbLockedForDisplay (maFrames s5 ! g)"
      using that len by (cases "g = f") (simp_all add: pool6)
    with map_eq_nth [OF lk that] show ?thesis by simp
  qed
  have ty6: "mType (maFrames s6 ! g) = mType (maFrames s2 ! g)"
    if "g < length (maFrames s2)" for g
  proof -
    have "mType (maFrames s6 ! g) = mType (maFrames s5 ! g)"
      using that len by (cases "g = f") (simp_all add: pool6)
    with map_eq_nth [OF ty that] show ?thesis by simp
  qed
  from f5 len have f2: "f < length (maFrames s2)"
    by simp
  have core: "poolCore s6 \<and> lockedQueued s6 \<subseteq> lockedQueued s2" if c: "poolCore s2"
  proof -
    from c have l: "ringLinked s2" and t: "poolTyped s2" and pc: "poolCounted s2"
      by (simp_all add: poolCore_def)
    have inr: "g < length (maFrames s2)" if "WORK_ITEM_FRAME g \<in> set (mpWorkQueue s2)" for g
      using l that unfolding ringLinked_def by blast
    have "ringLinked s5"
      using lsh l by (rule linkShape_linked)
    with q have l6: "ringLinked s6"
      by (rule WorkItem_queue_linked)
    have t6: "poolTyped s6"
      unfolding poolTyped_def
    proof (intro allI impI)
      fix g assume "g < length (maFrames s6)"
      then have g: "g < length (maFrames s2)" by (simp add: pool6 len)
      with t ty6 [OF g] show "mType (maFrames s6 ! g) = eFT_DISPLAY_QUEUE"
        by (simp add: poolTyped_def)
    qed
    have "length (filter (unlockedFrame (maFrames s6)) (mpWorkQueue s5))
        = length (filter (unlockedFrame (maFrames s2)) (mpWorkQueue s2))"
      using fr by (rule count_unlocked_cong) (simp add: lk6 inr)
    moreover have "unlockedFrame (maFrames s6) (WORK_ITEM_FRAME f)"
      using nl by (simp add: lk6 f2)
    ultimately have "unlockedQueued s6 = Suc (unlockedQueued s2)"
      by (simp add: unlockedQueued_def ring6)
    with pc have pc6: "poolCounted s6"
      by (simp add: poolCounted_def used6 used5 cnt6 cnt5)
    have lq: "lockedQueued s6 \<subseteq> lockedQueued s2"
    proof
      fix g assume "g \<in> lockedQueued s6"
      then have g: "WORK_ITEM_FRAME g \<in> set (mpWorkQueue s2) \<or> g = f"
        and lg: "mbLockedForDisplay (maFrames s6 ! g)"
        by (auto simp: lockedQueued_def ring6 mem)
      from lg nl f2 have "g \<noteq> f"
        by (auto simp: lk6)
      with g have "WORK_ITEM_FRAME g \<in> set (mpWorkQueue s2)"
        by simp
      with lg show "g \<in> lockedQueued s2"
        by (simp add: lockedQueued_def lk6 inr)
    qed
    from l6 t6 pc6 lq show ?thesis
      by (simp add: poolCore_def)
  qed
  with ph6 ph5 show ?thesis
    by (simp add: keeps_def)
qed

lemma Frame_set_flags:
  "Frame_set stack zorder i config allocOk fr = Inr (ok, fr') \<Longrightarrow>
     mbQueued fr' = mbQueued fr \<and> mbLockedForDisplay fr' = mbLockedForDisplay fr \<and> mType fr' = mType fr"
  by (auto simp: Frame_set_def bindE_eq_Inr Let_def split: if_splits)

lemma Frame_set_allocOk:
  "Frame_set stack zorder i config True fr = Inr (ok, fr') \<Longrightarrow> ok"
  by (auto simp: Frame_set_def bindE_eq_Inr Let_def split: if_splits)

lemma findFree_Some_free:
  assumes "findFree s = Inr (Some f, s')"
  shows "f < length (maFrames s') \<and> \<not> mbLockedForDisplay (maFrames s' ! f)"
proof (cases "findFreeLoop (maFrames s) [0 ..< length (maFrames s)] None")
  case (Inl g)
  with assms have "g = f" and "s' = s"
    by (auto simp: findFree_def)
  with findFreeLoop_Inl [OF Inl] show ?thesis
    by simp
next
  case (Inr r)
  with assms have d: "dropFrame f s = Inr s'"
    by (auto simp: findFree_def bindE_eq_Inr split: option.splits)
  from dropFrame_result [OF d] show ?thesis
    by (simp add: Frame_reset_def)
qed

lemma queueFrame_keeps:
  assumes q: "queueFrame stack zorder i config True s = Inr (r, s')"
  shows "keeps s s'"
proof -
  from q obtain s1 pNew s2 where
    lim: "limitUsedFrames s = Inr s1" and ff: "findFree s1 = Inr (pNew, s2)"
    by (auto simp: queueFrame_def bindE_eq_Inr)
  have k2: "keeps s s2"
    using limitUsedFrames_keeps [OF lim] findFree_keeps [OF ff] by (rule keeps_trans)
  show ?thesis
  proof (cases pNew)
    case None
    with q lim ff have "s' = s2"
      by (auto simp: queueFrame_def bindE_eq_Inr)
    with k2 show ?thesis by simp
  next
    case (Some f)
    from findFree_Some_free ff Some have f2: "f < length (maFrames s2)"
      and nl: "\<not> mbLockedForDisplay (maFrames s2 ! f)"
      by blast+
    define s3 where "s3 = (let s = s2\<lparr>mFramePoolUsed := mFramePoolUsed s2 + 1\<rparr>
       in if mFramePoolUsed s > mFramePoolPeak s then s\<lparr>mFramePoolPeak := mFramePoolUsed s\<rparr> else s)"
    have sh3: "acctShape s3 = acctShape (s2\<lparr>mFramePoolUsed := mFramePoolUsed s2 + 1\<rparr>)"
      and fr3: "maFrames s3 = maFrames s2"
      by (simp_all add: s3_def Let_def acctShape_def linkShape_def)
    from q lim ff Some obtain ok fr where
      fs: "Frame_set stack zorder i config True (maFrames s3 ! f) = Inr (ok, fr)" and
      rest: "(let s = updFrame f (\<lambda>_. fr) s3
              in if \<not> ok then Inr (- ENOSYS, s)
                 else let s = updFrame f (\<lambda>fr. fr\<lparr>mEffectiveFrame := i\<rparr>) s;
                          s = s\<lparr>mLastQueuedFrame := i\<rparr>
                      in bindE (doQueueWork (WORK_ITEM_FRAME f) s) (\<lambda>s. Inr (OK, s))) = Inr (r, s')"
      by (auto simp: queueFrame_def bindE_eq_Inr s3_def Let_def split: if_splits)
    from Frame_set_allocOk [OF fs] have ok by simp
    define s4 where "s4 = updFrame f (\<lambda>_. fr) s3"
    define s5 where "s5 = (updFrame f (\<lambda>fr. fr\<lparr>mEffectiveFrame := i\<rparr>) s4)\<lparr>mLastQueuedFrame := i\<rparr>"
    have sh4: "acctShape s4 = acctShape s3"
      unfolding s4_def using Frame_set_flags [OF fs] by (intro acctShape_updFrame) simp_all
    have lq: "acctShape (t\<lparr>mLastQueuedFrame := i\<rparr>) = acctShape t" for t
      by (simp add: acctShape_def linkShape_def)
    have "acctShape s5 = acctShape s4"
      unfolding s5_def lq by (rule acctShape_updFrame) simp_all
    with sh4 sh3 have sh5: "acctShape s5 = acctShape (s2\<lparr>mFramePoolUsed := mFramePoolUsed s2 + 1\<rparr>)"
      by simp
    from rest \<open>ok\<close> have "doQueueWork (WORK_ITEM_FRAME f) s5 = Inr s'"
      by (auto simp: Let_def bindE_eq_Inr s5_def s4_def)
    from doQueueWork_acctShape [OF this] obtain s6 where
      q6: "WorkItem_queue (WORK_ITEM_FRAME f) s5 = Inr s6" and sh6: "acctShape s' = acctShape s6"
      by blast
    have "keeps s2 s6"
      using q6 sh5 nl by (rule WorkItem_queue_frame_keeps)
    moreover have "keeps s6 s'"
      using sh6 by (rule acctShape_keeps)
    ultimately have "keeps s2 s'"
      by (rule keeps_trans)
    with k2 show ?thesis
      by (rule keeps_trans)
  qed
qed

lemma doReleaseFrame_keeps:
  assumes r: "doReleaseFrame f s = Inr s'" and nq: "\<not> mbQueued (maFrames s ! f)"
  shows "keeps s s'"
proof -
  from r have fl: "f < length (maFrames s)" and lf: "mbLockedForDisplay (maFrames s ! f)"
    and ring': "mpWorkQueue s' = mpWorkQueue s"
    and pool': "maFrames s' = (maFrames s)[f := Frame_reset False (maFrames s ! f)]"
    and used': "mFramePoolUsed s' = mFramePoolUsed s - 1"
    and cnt': "mFramesLockedForDisplay s' = mFramesLockedForDisplay s - 1"
    and ph': "mPhase s' = mPhase s"
    by (auto simp: doReleaseFrame_def bindE_eq_Inr Let_def)
  have other: "maFrames s' ! g = maFrames s ! g" if "g \<noteq> f" for g
    unfolding pool' using that by simp
  have core: "poolCore s' \<and> lockedQueued s' \<subseteq> lockedQueued s" if c: "poolCore s"
  proof -
    from c have l: "ringLinked s" and t: "poolTyped s" and pc: "poolCounted s"
      by (simp_all add: poolCore_def)
    from l fl nq have nin: "WORK_ITEM_FRAME f \<notin> set (mpWorkQueue s)"
      unfolding ringLinked_def by blast
    have same: "maFrames s' ! g = maFrames s ! g" if "WORK_ITEM_FRAME g \<in> set (mpWorkQueue s)" for g
      using that nin by (intro other) auto
    have l': "ringLinked s'"
      using r l by (rule doReleaseFrame_linked)
    have t': "poolTyped s'"
      unfolding poolTyped_def
    proof (intro allI impI)
      fix g assume "g < length (maFrames s')"
      then have g: "g < length (maFrames s)" by (simp add: pool')
      with t show "mType (maFrames s' ! g) = eFT_DISPLAY_QUEUE"
        by (cases "g = f") (simp_all add: pool' poolTyped_def Frame_reset_def)
    qed
    have "unlockedQueued s' = unlockedQueued s"
      by (rule unlockedQueued_cong) (simp_all add: ring' same)
    with pc have pc': "poolCounted s'"
      by (simp add: poolCounted_def used' cnt')
    have "lockedQueued s' \<subseteq> lockedQueued s"
      by (auto simp: lockedQueued_def ring' same)
    with l' t' pc' show ?thesis
      by (simp add: poolCore_def)
  qed
  with ph' show ?thesis
    by (simp add: keeps_def)
qed

lemma perform_keeps:
  assumes p: "perform op s = Some (Inr s')" and reg: "regularOp op s" and nc: "op \<noteq> OpConsumeWork"
  shows "keeps s s'"
proof (cases op)
  case (OpInit n)
  with p have "acctShape s' = acctShape s"
    by (auto simp: perform_def init_def acctShape_def linkShape_def)
  then show ?thesis by (rule acctShape_keeps)
next
  case (OpQueueEvent e)
  with p show ?thesis by (auto simp: perform_def bindE_eq_Inr dest: queueEvent_keeps)
next
  case (OpQueueFrame stack zorder i config allocOk)
  with p reg show ?thesis by (auto simp: perform_def regularOp_def bindE_eq_Inr dest: queueFrame_keeps)
next
  case (OpQueueDrop i)
  with p show ?thesis by (auto simp: perform_def dest: queueDrop_keeps)
next
  case OpDropAllFrames
  with p show ?thesis by (auto simp: perform_def dest: dropAllFrames_keeps)
next
  case OpDropRedundantFrames
  with p show ?thesis
    by (auto simp: perform_def dropRedundantFrames_def dest: doDropRedundantFrames_keeps)
next
  case OpConsumeWork
  with nc show ?thesis by simp
next
  case (OpFlush tid i t)
  with p show ?thesis by (auto simp: perform_def dest: flush_keeps)
next
  case OpConsumerBlocked
  with p have "acctShape s' = acctShape s"
    by (auto simp: perform_def consumerBlocked_def acctShape_def linkShape_def)
  then show ?thesis by (rule acctShape_keeps)
next
  case OpConsumerUnblocked
  with p have "acctShape s' = acctShape s"
    by (auto simp: perform_def consumerUnblocked_def bindE_eq_Inr acctShape_def linkShape_def)
  then show ?thesis by (rule acctShape_keeps)
next
  case OpNotifyReady
  with p have "acctShape s' = acctShape s"
    by (auto simp: perform_def notifyReady_def split: if_splits dest: signalWork_acctShape)
  then show ?thesis by (rule acctShape_keeps)
next
  case (OpReleaseFrame f)
  with p reg show ?thesis
    by (auto simp: perform_def regularOp_def releaseFrame_def dest: doReleaseFrame_keeps)
qed

lemma unlockedFrame_other:
  assumes "\<And>g. g \<noteq> f \<Longrightarrow> pool' ! g = pool ! g" and "w \<noteq> WORK_ITEM_FRAME f"
  shows "unlockedFrame pool' w = unlockedFrame pool w"
  by (cases w) (use assms in simp_all)

lemma poolCore_phase [simp]: "poolCore (s\<lparr>mPhase := p\<rparr>) = poolCore s"
  by (simp add: poolCore_def ringLinked_def poolTyped_def poolCounted_def unlockedQueued_def)

lemma lockedQueued_phase [simp]: "lockedQueued (s\<lparr>mPhase := p\<rparr>) = lockedQueued s"
  by (simp add: lockedQueued_def)

lemma poolInv_none_locked:
  assumes "poolInv s" and "\<And>f. mPhase s \<noteq> PhaseWaitRendering f"
  shows "lockedQueued s = {}"
  using assms by (auto simp: poolInv_def lockedWaiting_def)

lemma poolInv_rephase:
  assumes c: "poolCore s" and e: "lockedQueued s = {}" and sh: "acctShape s' = acctShape (s\<lparr>mPhase := p\<rparr>)"
  shows "poolInv s'"
proof -
  have "keeps (s\<lparr>mPhase := p\<rparr>) s'"
    using sh by (rule acctShape_keeps)
  moreover have "poolInv (s\<lparr>mPhase := p\<rparr>)"
    using c e by (simp add: poolInv_def lockedWaiting_def)
  ultimately show ?thesis
    by (rule keeps_poolInv)
qed

lemma lock_core:
  assumes c: "poolCore s" and e: "lockedQueued s = {}" and inr: "WORK_ITEM_FRAME f \<in> set (mpWorkQueue s)"
  shows "poolCore (lockFrameForDisplay f s) \<and> lockedQueued (lockFrameForDisplay f s) = {f}"
proof -
  define s1 where "s1 = lockFrameForDisplay f s"
  have ring1: "mpWorkQueue s1 = mpWorkQueue s"
    and pool1: "maFrames s1 = (maFrames s)[f := (maFrames s ! f)\<lparr>mbLockedForDisplay := True\<rparr>]"
    and used1: "mFramePoolUsed s1 = mFramePoolUsed s"
    and cnt1: "mFramesLockedForDisplay s1 = mFramesLockedForDisplay s + 1"
    by (simp_all add: s1_def lockFrameForDisplay_def updFrame_def)
  from c have l: "ringLinked s" and t: "poolTyped s" and pc: "poolCounted s"
    by (simp_all add: poolCore_def)
  from l inr have fl: "f < length (maFrames s)"
    unfolding ringLinked_def by blast
  from l have dist: "distinct (filter isFrame (mpWorkQueue s))"
    by (simp add: ringLinked_def)
  from e inr have nl: "\<not> mbLockedForDisplay (maFrames s ! f)"
    by (auto simp: lockedQueued_def)
  have other: "maFrames s1 ! g = maFrames s ! g" if "g \<noteq> f" for g
    unfolding pool1 using that by simp
  have lf1: "mbLockedForDisplay (maFrames s1 ! f)"
    using fl by (simp add: pool1)
  have l1: "ringLinked s1"
    unfolding s1_def using lockFrameForDisplay_shape l by (rule linkShape_linked)
  have t1: "poolTyped s1"
    unfolding poolTyped_def
  proof (intro allI impI)
    fix g assume "g < length (maFrames s1)"
    then have g: "g < length (maFrames s)" by (simp add: pool1)
    with t show "mType (maFrames s1 ! g) = eFT_DISPLAY_QUEUE"
      by (cases "g = f") (simp_all add: pool1 poolTyped_def)
  qed
  have others: "\<forall>w \<in> set (mpWorkQueue s). w \<noteq> WORK_ITEM_FRAME f \<longrightarrow>
          unlockedFrame (maFrames s1) w = unlockedFrame (maFrames s) w"
  proof (intro ballI impI)
    fix w assume "w \<noteq> WORK_ITEM_FRAME f"
    with other show "unlockedFrame (maFrames s1) w = unlockedFrame (maFrames s) w"
      by (rule unlockedFrame_other)
  qed
  have "Suc (length (filter (unlockedFrame (maFrames s1)) (mpWorkQueue s)))
      = length (filter (unlockedFrame (maFrames s)) (mpWorkQueue s))"
  proof (rule length_filter_flip [OF dist _ inr others])
    show "isFrame (WORK_ITEM_FRAME f)" by (simp add: isFrame_def)
    show "unlockedFrame (maFrames s) (WORK_ITEM_FRAME f)" using nl by simp
    show "\<not> unlockedFrame (maFrames s1) (WORK_ITEM_FRAME f)" using lf1 by simp
  qed
  then have "unlockedQueued s = Suc (unlockedQueued s1)"
    by (simp add: unlockedQueued_def ring1)
  then have "(of_nat (unlockedQueued s) :: 32 word) = of_nat (unlockedQueued s1) + 1"
    by simp
  with pc have pc1: "poolCounted s1"
    by (simp add: poolCounted_def used1 cnt1)
  have "lockedQueued s1 = {f}"
  proof
    show "lockedQueued s1 \<subseteq> {f}"
    proof
      fix g assume g: "g \<in> lockedQueued s1"
      have "g = f"
      proof (rule ccontr)
        assume "g \<noteq> f"
        with g have "g \<in> lockedQueued s"
          by (simp add: lockedQueued_def ring1 other)
        with e show False by simp
      qed
      then show "g \<in> {f}" by simp
    qed
    show "{f} \<subseteq> lockedQueued s1"
      using inr lf1 by (simp add: lockedQueued_def ring1)
  qed
  with l1 t1 pc1 show ?thesis
    by (simp add: poolCore_def s1_def)
qed

lemma unlock_core:
  assumes c: "poolCore s" and e: "lockedQueued s \<subseteq> {f}" and inr: "WORK_ITEM_FRAME f \<in> set (mpWorkQueue s)"
    and lf: "mbLockedForDisplay (maFrames s ! f)"
  shows "poolCore (unlockFrameForDisplay f s) \<and> lockedQueued (unlockFrameForDisplay f s) = {}"
proof -
  define s0 where "s0 = unlockFrameForDisplay f s"
  have ring0: "mpWorkQueue s0 = mpWorkQueue s"
    and pool0: "maFrames s0 = (maFrames s)[f := (maFrames s ! f)\<lparr>mbLockedForDisplay := False\<rparr>]"
    and used0: "mFramePoolUsed s0 = mFramePoolUsed s"
    and cnt0: "mFramesLockedForDisplay s0 = mFramesLockedForDisplay s - 1"
    by (simp_all add: s0_def unlockFrameForDisplay_def updFrame_def)
  from c have l: "ringLinked s" and t: "poolTyped s" and pc: "poolCounted s"
    by (simp_all add: poolCore_def)
  from l inr have fl: "f < length (maFrames s)"
    unfolding ringLinked_def by blast
  from l have dist: "distinct (filter isFrame (mpWorkQueue s))"
    by (simp add: ringLinked_def)
  have other: "maFrames s0 ! g = maFrames s ! g" if "g \<noteq> f" for g
    unfolding pool0 using that by simp
  have nl0: "\<not> mbLockedForDisplay (maFrames s0 ! f)"
    using fl by (simp add: pool0)
  have l0: "ringLinked s0"
    unfolding s0_def using unlockFrameForDisplay_shape l by (rule linkShape_linked)
  have t0: "poolTyped s0"
    unfolding poolTyped_def
  proof (intro allI impI)
    fix g assume "g < length (maFrames s0)"
    then have g: "g < length (maFrames s)" by (simp add: pool0)
    with t show "mType (maFrames s0 ! g) = eFT_DISPLAY_QUEUE"
      by (cases "g = f") (simp_all add: pool0 poolTyped_def)
  qed
  have others: "\<forall>w \<in> set (mpWorkQueue s). w \<noteq> WORK_ITEM_FRAME f \<longrightarrow>
          unlockedFrame (maFrames s) w = unlockedFrame (maFrames s0) w"
  proof (intro ballI impI)
    fix w assume "w \<noteq> WORK_ITEM_FRAME f"
    with other have "unlockedFrame (maFrames s0) w = unlockedFrame (maFrames s) w"
      by (rule unlockedFrame_other)
    then show "unlockedFrame (maFrames s) w = unlockedFrame (maFrames s0) w"
      by simp
  qed
  have "Suc (length (filter (unlockedFrame (maFrames s)) (mpWorkQueue s)))
      = length (filter (unlockedFrame (maFrames s0)) (mpWorkQueue s))"
  proof (rule length_filter_flip [OF dist _ inr others])
    show "isFrame (WORK_ITEM_FRAME f)" by (simp add: isFrame_def)
    show "unlockedFrame (maFrames s0) (WORK_ITEM_FRAME f)" using nl0 by simp
    show "\<not> unlockedFrame (maFrames s) (WORK_ITEM_FRAME f)" using lf by simp
  qed
  then have "unlockedQueued s0 = Suc (unlockedQueued s)"
    by (simp add: unlockedQueued_def ring0)
  then have "(of_nat (unlockedQueued s0) :: 32 word) = of_nat (unlockedQueued s) + 1"
    by simp
  with pc have pc0: "poolCounted s0"
    by (simp add: poolCounted_def used0 cnt0)
  have "lockedQueued s0 = {}"
  proof (rule ccontr)
    assume "lockedQueued s0 \<noteq> {}"
    then obtain g where g: "g \<in> lockedQueued s0" by blast
    with nl0 have "g \<noteq> f"
      by (auto simp: lockedQueued_def)
    with g have "g \<in> lockedQueued s"
      by (simp add: lockedQueued_def ring0 other)
    with e \<open>g \<noteq> f\<close> show False by blast
  qed
  with l0 t0 pc0 show ?thesis
    by (simp add: poolCore_def s0_def)
qed

lemma doConsumeFrame_flip_poolInv:
  assumes fl: "doConsumeFrame_flip f s = Inr s'" and c: "poolCore s" and e: "lockedQueued s \<subseteq> {f}"
    and lf: "mbLockedForDisplay (maFrames s ! f)"
  shows "poolInv s'"
proof -
  from fl have f: "f < length (maFrames s)"
    and ring': "mpWorkQueue s' = remove1 (WORK_ITEM_FRAME f) (mpWorkQueue s)"
    and pool': "maFrames s' = (maFrames s)[f := (maFrames s ! f)\<lparr>mbQueued := False\<rparr>]"
    and used': "mFramePoolUsed s' = mFramePoolUsed s"
    and cnt': "mFramesLockedForDisplay s' = mFramesLockedForDisplay s"
    by (auto simp: doConsumeFrame_flip_def WorkItem_dequeue_def bindE_eq_Inr Let_def validItem_def)
  from c have l: "ringLinked s" and t: "poolTyped s" and pc: "poolCounted s"
    by (simp_all add: poolCore_def)
  from l have dist: "distinct (filter isFrame (mpWorkQueue s))"
    by (simp add: ringLinked_def)
  have mem: "WORK_ITEM_FRAME g \<in> set (mpWorkQueue s') \<longleftrightarrow> g \<noteq> f \<and> WORK_ITEM_FRAME g \<in> set (mpWorkQueue s)" for g
    unfolding ring' by (rule frame_mem_remove1 [OF dist])
  have lk: "mbLockedForDisplay (maFrames s' ! g) = mbLockedForDisplay (maFrames s ! g)" for g
    using f by (cases "g = f") (simp_all add: pool')
  have l': "ringLinked s'"
    using fl l by (rule doConsumeFrame_flip_linked)
  have t': "poolTyped s'"
    unfolding poolTyped_def
  proof (intro allI impI)
    fix g assume "g < length (maFrames s')"
    then have g: "g < length (maFrames s)" by (simp add: pool')
    with t show "mType (maFrames s' ! g) = eFT_DISPLAY_QUEUE"
      by (cases "g = f") (simp_all add: pool' poolTyped_def)
  qed
  have "length (filter (unlockedFrame (maFrames s')) (mpWorkQueue s'))
      = length (filter (unlockedFrame (maFrames s)) (mpWorkQueue s'))"
    by (rule count_unlocked_cong) (simp_all add: lk)
  also have "\<dots> = length (filter (unlockedFrame (maFrames s)) (mpWorkQueue s))"
    unfolding ring' using lf by (simp add: filter_remove1_out)
  finally have "unlockedQueued s' = unlockedQueued s"
    by (simp add: unlockedQueued_def)
  with pc have pc': "poolCounted s'"
    by (simp add: poolCounted_def used' cnt')
  have "lockedQueued s' = {}"
  proof (rule ccontr)
    assume "lockedQueued s' \<noteq> {}"
    then obtain g where g: "g \<in> lockedQueued s'" by blast
    then have "g \<noteq> f" and "g \<in> lockedQueued s"
      by (simp_all add: lockedQueued_def mem lk)
    with e show False by blast
  qed
  with l' t' pc' show ?thesis
    by (simp add: poolInv_def poolCore_def lockedWaiting_def)
qed

lemma doConsumeFrame_start_poolInv:
  assumes st: "doConsumeFrame_start f s = Inr s'" and inv: "poolInv s" and idle: "mPhase s = PhaseIdle"
    and inr: "WORK_ITEM_FRAME f \<in> set (mpWorkQueue s)"
  shows "poolInv s'"
proof -
  from inv have c: "poolCore s"
    by (simp add: poolInv_def)
  have e: "lockedQueued s = {}"
    using inv by (rule poolInv_none_locked) (simp add: idle)
  from lock_core [OF c e inr] have c1: "poolCore (lockFrameForDisplay f s)"
    and e1: "lockedQueued (lockFrameForDisplay f s) = {f}"
    by blast+
  from e1 have lf1: "mbLockedForDisplay (maFrames (lockFrameForDisplay f s) ! f)"
    by (auto simp: lockedQueued_def)
  from st have "s' = (lockFrameForDisplay f s)\<lparr>mPhase := PhaseWaitRendering f\<rparr>
      \<or> doConsumeFrame_flip f (lockFrameForDisplay f s) = Inr s'"
    by (auto simp: doConsumeFrame_start_def bindE_eq_Inr Let_def split: if_splits)
  then show ?thesis
  proof
    assume "s' = (lockFrameForDisplay f s)\<lparr>mPhase := PhaseWaitRendering f\<rparr>"
    with c1 e1 show ?thesis
      by (simp add: poolInv_def lockedWaiting_def)
  next
    assume "doConsumeFrame_flip f (lockFrameForDisplay f s) = Inr s'"
    then show ?thesis
      using c1 _ lf1 by (rule doConsumeFrame_flip_poolInv) (simp add: e1)
  qed
qed

lemma doConsumeFrame_synced_poolInv:
  assumes sy: "doConsumeFrame_synced f s = Inr s'" and inv: "poolInv s"
    and ph: "mPhase s = PhaseWaitRendering f"
  shows "poolInv s'"
proof -
  from sy obtain s1 where
    hd: "mpWorkQueue s \<noteq> [] \<and> hd (mpWorkQueue s) = WORK_ITEM_FRAME f" and
    lf: "mbLockedForDisplay (maFrames s ! f)" and
    d: "doDropRedundantFrames (unlockFrameForDisplay f s) = Inr s1" and
    rest: "(case mpWorkQueue s1 of
         WORK_ITEM_FRAME pFrame # ws \<Rightarrow>
           let s = lockFrameForDisplay pFrame s1
           in bindE (HWCASSERT (mType (maFrames s ! pFrame) = eFT_DISPLAY_QUEUE)) (\<lambda>_.
                doConsumeFrame_flip pFrame s)
       | _ \<Rightarrow> Inr (s1\<lparr>mPhase := PhaseIdle\<rparr>)) = Inr s'"
    by (auto simp: doConsumeFrame_synced_def bindE_eq_Inr)
  from hd have inr: "WORK_ITEM_FRAME f \<in> set (mpWorkQueue s)"
    by (metis hd_in_set)
  from inv have c: "poolCore s"
    by (simp add: poolInv_def)
  from inv ph have e: "lockedQueued s \<subseteq> {f}"
    by (auto simp: poolInv_def lockedWaiting_def)
  from unlock_core [OF c e inr lf] have c0: "poolCore (unlockFrameForDisplay f s)"
    and e0: "lockedQueued (unlockFrameForDisplay f s) = {}"
    by blast+
  note k = doDropRedundantFrames_keeps [OF d]
  from k c0 have c1: "poolCore s1"
    by (simp add: keeps_def)
  from k c0 e0 have e1: "lockedQueued s1 = {}"
    by (rule keeps_none_locked)
  show ?thesis
  proof (cases "mpWorkQueue s1")
    case Nil
    with rest c1 e1 show ?thesis
      by (auto simp: poolInv_def lockedWaiting_def)
  next
    case (Cons w ws)
    show ?thesis
    proof (cases w)
      case (WORK_ITEM_EVENT ev)
      with Cons rest c1 e1 show ?thesis
        by (auto simp: poolInv_def lockedWaiting_def)
    next
      case (WORK_ITEM_FRAME p)
      with Cons have inr1: "WORK_ITEM_FRAME p \<in> set (mpWorkQueue s1)"
        by simp
      from lock_core [OF c1 e1 inr1] have c2: "poolCore (lockFrameForDisplay p s1)"
        and e2: "lockedQueued (lockFrameForDisplay p s1) = {p}"
        by blast+
      from e2 have lf2: "mbLockedForDisplay (maFrames (lockFrameForDisplay p s1) ! p)"
        by (auto simp: lockedQueued_def)
      from rest Cons WORK_ITEM_FRAME have "doConsumeFrame_flip p (lockFrameForDisplay p s1) = Inr s'"
        by (auto simp: Let_def bindE_eq_Inr)
      then show ?thesis
        using c2 _ lf2 by (rule doConsumeFrame_flip_poolInv) (simp add: e2)
    qed
  qed
qed

lemma consumeWork_section_poolInv:
  assumes cs: "consumeWork_section s = Inr s'" and inv: "poolInv s"
  shows "poolInv s'"
proof -
  from inv have c: "poolCore s"
    by (simp add: poolInv_def)
  show ?thesis
  proof (cases "mPhase s")
    case PhaseIdle
    with cs have st: "doConsumeWork_start s = Inr s'"
      by (simp add: consumeWork_section_def)
    have e: "lockedQueued s = {}"
      using inv by (rule poolInv_none_locked) (simp add: PhaseIdle)
    show ?thesis
    proof (cases "mpWorkQueue s")
      case Nil
      with st inv show ?thesis
        by (auto simp: doConsumeWork_start_def bindE_eq_Inr)
    next
      case (Cons w ws)
      show ?thesis
      proof (cases w)
        case (WORK_ITEM_FRAME f)
        with Cons st have "doConsumeFrame_start f s = Inr s'"
          by (auto simp: doConsumeWork_start_def bindE_eq_Inr)
        then show ?thesis
          using inv PhaseIdle by (rule doConsumeFrame_start_poolInv) (simp add: Cons WORK_ITEM_FRAME)
      next
        case (WORK_ITEM_EVENT ev)
        with Cons st have "acctShape s' = acctShape (s\<lparr>mPhase := PhaseEventIssued\<rparr>)"
          by (auto simp: doConsumeWork_start_def doConsumeEvent_issue_def bindE_eq_Inr
              acctShape_def linkShape_def)
        with c e show ?thesis
          by (rule poolInv_rephase)
      qed
    qed
  next
    case PhaseEventIssued
    have e: "lockedQueued s = {}"
      using inv by (rule poolInv_none_locked) (simp add: PhaseEventIssued)
    from cs PhaseEventIssued have "acctShape s' = acctShape (s\<lparr>mPhase := PhaseIdle\<rparr>)"
      by (auto simp: consumeWork_section_def doConsumeEvent_retire_def WorkItem_dequeue_def
          bindE_eq_Inr Let_def doAdvanceIssuedFrame_def acctShape_def linkShape_def
          isFrame_def split: list.splits WorkItem.splits)
    with c e show ?thesis
      by (rule poolInv_rephase)
  next
    case (PhaseWaitRendering f)
    with cs have "doConsumeFrame_synced f s = Inr s'"
      by (simp add: consumeWork_section_def)
    then show ?thesis
      using inv PhaseWaitRendering by (rule doConsumeFrame_synced_poolInv)
  next
    case (PhaseFlipIssued i)
    have e: "lockedQueued s = {}"
      using inv by (rule poolInv_none_locked) (simp add: PhaseFlipIssued)
    from cs PhaseFlipIssued have "acctShape s' = acctShape (s\<lparr>mPhase := PhaseIdle\<rparr>)"
      by (auto simp: consumeWork_section_def doConsumeFrame_retire_def doAdvanceIssuedFrame_def
          bindE_eq_Inr acctShape_def linkShape_def)
    with c e show ?thesis
      by (rule poolInv_rephase)
  qed
qed

lemma poolInv_new: "poolInv (DisplayQueue_new n l b)"
proof -
  have "ringLinked (DisplayQueue_new n l b)"
    by (rule ringLinked_new)
  then show ?thesis
    by (simp add: poolInv_def poolCore_def poolTyped_def poolCounted_def unlockedQueued_def
        lockedWaiting_def lockedQueued_def DisplayQueue_new_def)
qed

lemma perform_poolInv:
  assumes p: "perform op s = Some (Inr s')" and reg: "regularOp op s" and inv: "poolInv s"
  shows "poolInv s'"
proof (cases "op = OpConsumeWork")
  case True
  with p have "consumeWork_section s = Inr s'"
    by (simp add: perform_def)
  then show ?thesis
    using inv by (rule consumeWork_section_poolInv)
next
  case False
  with p reg have "keeps s s'"
    by (rule perform_keeps)
  then show ?thesis
    using inv by (rule keeps_poolInv)
qed

lemma run_poolInv: "poolInv s \<Longrightarrow> regularRun ops s \<Longrightarrow> t \<in> set (run ops s) \<Longrightarrow> poolInv t"
proof (induction ops arbitrary: s)
  case Nil
  then show ?case by simp
next
  case (Cons op ops)
  then show ?case
    by (auto split: option.splits sum.splits dest: perform_poolInv)
qed

lemma poolInv_accounted:
  assumes inv: "poolInv s" and e: "lockedQueued s = {}"
  shows "poolAccounted s"
proof -
  from inv have l: "ringLinked s" and t: "poolTyped s" and pc: "poolCounted s"
    by (simp_all add: poolInv_def poolCore_def)
  have "(case w of WORK_ITEM_FRAME f \<Rightarrow> mType (maFrames s ! f) = eFT_DISPLAY_QUEUE | WORK_ITEM_EVENT e \<Rightarrow> False)
      = unlockedFrame (maFrames s) w" if w: "w \<in> set (mpWorkQueue s)" for w
  proof (cases w)
    case (WORK_ITEM_FRAME f)
    with w l have "f < length (maFrames s)"
      unfolding ringLinked_def by blast
    with t have "mType (maFrames s ! f) = eFT_DISPLAY_QUEUE"
      by (simp add: poolTyped_def)
    moreover from w e WORK_ITEM_FRAME have "\<not> mbLockedForDisplay (maFrames s ! f)"
      by (auto simp: lockedQueued_def)
    ultimately show ?thesis
      using WORK_ITEM_FRAME by simp
  next
    case (WORK_ITEM_EVENT ev)
    then show ?thesis by simp
  qed
  then have "queuedPoolFrames s = unlockedQueued s"
    unfolding queuedPoolFrames_def unlockedQueued_def
    by (intro arg_cong [where f = length] filter_cong) simp_all
  with pc show ?thesis
    by (simp add: poolAccounted_def poolCounted_def)
qed

end
